theory Spec2Isabelle
  imports Complex_Main "HOL-Library.Log_Nat"
begin

section \<open>Conway's Game of Life with a pannable, zoomable viewport (main.py)\<close>

text \<open>
  The program is one Python class, \<^verbatim>\<open>GameOfLifePygame\<close>. Its fields that the
  simulation and the viewport use become a record; every method becomes a function
  from the state to the new state. A method that can raise returns \<open>error + game\<close>
  (\<open>Inl\<close> is the exception). Python integers are unbounded, so they are \<open>int\<close>;
  Python's \<^verbatim>\<open>//\<close> is floor division, which is \<open>div\<close> on \<open>int\<close>.
\<close>

subsection \<open>State\<close>

datatype error = ZeroDivisionError | OverflowError | ValueError | PygameError

text \<open>
  The grid is a two-dimensional numpy array of integers, held as a list of rows.
  A grid without rows keeps its number of columns in the field \<open>width\<close> only.
\<close>

type_synonym ndarray = "int list list"

record game =
  width :: int
  height :: int
  cell_size :: int
  grid :: ndarray
  screen_width :: int
  screen_height :: int
  running :: bool
  paused :: bool
  generation :: int
  fps :: int
  offset_x :: int
  offset_y :: int
  pan_speed :: int
  min_cell_size :: int
  max_cell_size :: int

text \<open>
  The class keeps \<open>grid\<close> of shape \<open>(height, width)\<close> with entries 0 and 1: every
  assignment to \<open>grid\<close> builds it from these two fields, which are never reassigned.
\<close>

definition shape_ok :: "ndarray \<Rightarrow> int \<Rightarrow> int \<Rightarrow> bool" where
  "shape_ok g h w \<longleftrightarrow> int (length g) = h \<and> list_all (\<lambda>row. int (length row) = w) g"

definition binary :: "ndarray \<Rightarrow> bool" where
  "binary g \<longleftrightarrow> list_all (list_all (\<lambda>v. v = 0 \<or> v = 1)) g"

definition grid_ok :: "game \<Rightarrow> bool" where
  "grid_ok s \<longleftrightarrow> shape_ok (grid s) (height s) (width s) \<and> binary (grid s)"

subsection \<open>Exceptions and floating point\<close>

definition and_then :: "error + 'a \<Rightarrow> ('a \<Rightarrow> error + 'b) \<Rightarrow> error + 'b" where
  "and_then r f = (case r of Inl e \<Rightarrow> Inl e | Inr v \<Rightarrow> f v)"

text \<open>
  \<^verbatim>\<open>zoom_at\<close> computes with Python floats (IEEE 754 binary64). A finite double is a
  rational number, and every operation returns the exact result rounded to the nearest
  double, ties to the even significand. \<open>exponent x\<close> is the \<open>e\<close> with
  \<open>2 ^ e \<le> \<bar>x\<bar> < 2 ^ (e + 1)\<close>; a double has 53 significant bits, so the spacing of
  the doubles around \<open>x\<close> is \<open>2 ^ (e - 52)\<close>, and \<open>2 ^ (- 1074)\<close> in the subnormal
  range. A result of magnitude \<open>2 ^ 1024\<close> or more is no finite double: the division of
  two integers and the conversion of an integer raise OverflowError at once, and an
  infinite product or difference raises it when \<^verbatim>\<open>int()\<close> is applied.
\<close>

definition round_half_even :: "rat \<Rightarrow> int" where
  "round_half_even x =
     (let n = \<lfloor>x\<rfloor>; d = x - of_int n
      in if d < 1 / 2 then n else if 1 / 2 < d then n + 1 else if even n then n else n + 1)"

definition exponent :: "rat \<Rightarrow> int" where
  "exponent x =
     (case quotient_of \<bar>x\<bar> of (p, q) \<Rightarrow>
        let e = bitlen p - bitlen q in if \<bar>x\<bar> < 2 powi e then e - 1 else e)"

definition to_double :: "rat \<Rightarrow> error + rat" where
  "to_double x =
     (if x = 0 then Inr 0
      else let u = 2 powi (max (exponent x - 52) (- 1074));
               y = of_int (round_half_even (x / u)) * u
           in if 2 powi 1024 \<le> \<bar>y\<bar> then Inl OverflowError else Inr y)"

text \<open>\<^verbatim>\<open>a / b\<close> on two integers, \<^verbatim>\<open>x * n\<close> and \<^verbatim>\<open>x - n\<close> on a float and an integer
  (the integer is converted first), and \<^verbatim>\<open>int(x)\<close>, which truncates toward zero.\<close>

definition true_div :: "int \<Rightarrow> int \<Rightarrow> error + rat" where
  "true_div a b = (if b = 0 then Inl ZeroDivisionError else to_double (of_int a / of_int b))"

definition float_of_int :: "int \<Rightarrow> error + rat" where
  "float_of_int n = to_double (of_int n)"

definition float_mul :: "rat \<Rightarrow> int \<Rightarrow> error + rat" where
  "float_mul x n = and_then (float_of_int n) (\<lambda>y. to_double (x * y))"

definition float_sub :: "rat \<Rightarrow> int \<Rightarrow> error + rat" where
  "float_sub x n = and_then (float_of_int n) (\<lambda>y. to_double (x - y))"

definition py_int :: "rat \<Rightarrow> int" where
  "py_int x = (if 0 \<le> x then \<lfloor>x\<rfloor> else \<lceil>x\<rceil>)"

subsection \<open>Viewport: clamp_offsets and the two coordinate maps\<close>

definition clamp_offsets :: "game \<Rightarrow> game" where
  "clamp_offsets s =
     (let total_w = width s * cell_size s;
          total_h = height s * cell_size s;
          max_x = max 0 (total_w - screen_width s);
          max_y = max 0 (total_h - (screen_height s - 50));
          s1 = s\<lparr>offset_x := max 0 (min (offset_x s) max_x)\<rparr>
      in s1\<lparr>offset_y := max 0 (min (offset_y s1) max_y)\<rparr>)"

text \<open>
  \<^verbatim>\<open>draw_grid\<close> places cell \<open>(x, y)\<close> at
  \<^verbatim>\<open>screen_x = x * self.cell_size - self.offset_x\<close> (and likewise for \<open>y\<close>).
\<close>

definition grid_to_screen :: "game \<Rightarrow> int \<Rightarrow> int \<Rightarrow> int \<times> int" where
  "grid_to_screen s x y = (x * cell_size s - offset_x s, y * cell_size s - offset_y s)"

text \<open>
  \<^verbatim>\<open>handle_mouse\<close> maps a pixel to a cell by
  \<^verbatim>\<open>grid_x = (x + self.offset_x) // self.cell_size\<close> (and likewise for \<open>y\<close>);
  the division raises when \<open>cell_size\<close> is 0.
\<close>

definition screen_to_grid :: "game \<Rightarrow> int \<Rightarrow> int \<Rightarrow> error + (int \<times> int)" where
  "screen_to_grid s x y =
     (if cell_size s = 0 then Inl ZeroDivisionError
      else Inr ((x + offset_x s) div cell_size s, (y + offset_y s) div cell_size s))"

subsection \<open>zoom_at\<close>

text \<open>
  The new offset of one axis, \<^verbatim>\<open>int(grid_x * self.cell_size - focus_x)\<close>.
\<close>

definition new_offset :: "rat \<Rightarrow> int \<Rightarrow> int \<Rightarrow> error + int" where
  "new_offset g cs focus =
     and_then (float_mul g cs) (\<lambda>m. and_then (float_sub m focus) (\<lambda>z. Inr (py_int z)))"

definition zoom_at :: "game \<Rightarrow> int \<Rightarrow> int \<Rightarrow> int \<Rightarrow> error + game" where
  "zoom_at s focus_x focus_y new_cell_size =
     (let old = cell_size s in
      if new_cell_size = old then Inr s
      else
        and_then (true_div (focus_x + offset_x s) old) (\<lambda>grid_x.
        and_then (true_div (focus_y + offset_y s) old) (\<lambda>grid_y.
        let s1 = s\<lparr>cell_size := new_cell_size\<rparr> in
        and_then (new_offset grid_x (cell_size s1) focus_x) (\<lambda>ox.
        let s2 = s1\<lparr>offset_x := ox\<rparr> in
        and_then (new_offset grid_y (cell_size s2) focus_y) (\<lambda>oy.
        let s3 = s2\<lparr>offset_y := oy\<rparr> in
        Inr (clamp_offsets s3))))))"

text \<open>
  The algorithm as the specification words it: the fractional grid coordinate of the
  focus, the new cell size clamped to \<open>[min_cell_size, max_cell_size]\<close>, the offset
  \<open>round (gridX * newCellSize) - focusX\<close>, then \<open>clamp_offsets\<close>.
\<close>

definition zoom_at_spec :: "game \<Rightarrow> int \<Rightarrow> int \<Rightarrow> int \<Rightarrow> game" where
  "zoom_at_spec s focus_x focus_y new_cell_size =
     (if new_cell_size = cell_size s then s
      else
        let grid_x = (of_int (focus_x + offset_x s) :: rat) / of_int (cell_size s);
            grid_y = (of_int (focus_y + offset_y s) :: rat) / of_int (cell_size s);
            new = max (min_cell_size s) (min new_cell_size (max_cell_size s))
        in clamp_offsets (s\<lparr>cell_size := new,
                              offset_x := round (grid_x * of_int new) - focus_x,
                              offset_y := round (grid_y * of_int new) - focus_y\<rparr>))"

subsection \<open>handle_mouse\<close>

definition toggle :: "ndarray \<Rightarrow> nat \<Rightarrow> nat \<Rightarrow> ndarray" where
  "toggle g gy gx = g[gy := (g ! gy)[gx := 1 - g ! gy ! gx]]"

definition handle_mouse :: "game \<Rightarrow> int \<times> int \<Rightarrow> error + game" where
  "handle_mouse s pos =
     (case pos of (x, y) \<Rightarrow>
        if y < screen_height s - 50 then
          (case screen_to_grid s x y of
             Inl e \<Rightarrow> Inl e
           | Inr (grid_x, grid_y) \<Rightarrow>
               if 0 \<le> grid_x \<and> grid_x < width s \<and> 0 \<le> grid_y \<and> grid_y < height s
               then Inr (s\<lparr>grid := toggle (grid s) (nat grid_y) (nat grid_x)\<rparr>)
               else Inr s)
        else Inr s)"

subsection \<open>The generation rule: count_neighbors and step\<close>

text \<open>
  The numpy operations that \<^verbatim>\<open>count_neighbors\<close> and \<^verbatim>\<open>step\<close> use, on lists of
  rows: \<^verbatim>\<open>np.zeros_like\<close>, \<^verbatim>\<open>np.pad\<close> with one constant 0 on every side, the slice
  \<^verbatim>\<open>a[i:i+h, j:j+w]\<close>, the elementwise \<^verbatim>\<open>+=\<close>, the elementwise comparisons and
  connectives, and the assignment through a boolean mask.
\<close>

definition ncols :: "ndarray \<Rightarrow> nat" where
  "ncols a = (case a of [] \<Rightarrow> 0 | row # _ \<Rightarrow> length row)"

definition zeros_like :: "ndarray \<Rightarrow> ndarray" where
  "zeros_like a = map (map (\<lambda>_. 0)) a"

definition np_pad :: "ndarray \<Rightarrow> ndarray" where
  "np_pad a =
     (let border = replicate (ncols a + 2) 0
      in border # map (\<lambda>row. 0 # row @ [0]) a @ [border])"

definition slice2 :: "ndarray \<Rightarrow> nat \<Rightarrow> nat \<Rightarrow> nat \<Rightarrow> nat \<Rightarrow> ndarray" where
  "slice2 a i h j w = map (\<lambda>row. take w (drop j row)) (take h (drop i a))"

definition elementwise :: "('a \<Rightarrow> 'b \<Rightarrow> 'c) \<Rightarrow> 'a list list \<Rightarrow> 'b list list \<Rightarrow> 'c list list" where
  "elementwise f a b = map2 (map2 f) a b"

definition iadd :: "ndarray \<Rightarrow> ndarray \<Rightarrow> ndarray" where
  "iadd a b = elementwise (+) a b"

definition eq_scalar :: "ndarray \<Rightarrow> int \<Rightarrow> bool list list" where
  "eq_scalar a v = map (map (\<lambda>x. x = v)) a"

definition mask_and :: "bool list list \<Rightarrow> bool list list \<Rightarrow> bool list list" where
  "mask_and a b = elementwise (\<and>) a b"

definition mask_or :: "bool list list \<Rightarrow> bool list list \<Rightarrow> bool list list" where
  "mask_or a b = elementwise (\<or>) a b"

definition assign_mask :: "ndarray \<Rightarrow> bool list list \<Rightarrow> int \<Rightarrow> ndarray" where
  "assign_mask a m v = elementwise (\<lambda>x b. if b then v else x) a m"

text \<open>
  The double loop over \<^verbatim>\<open>range(3)\<close> visits the nine index pairs in row-major order
  and skips \<open>(1, 1)\<close>.
\<close>

definition count_neighbors :: "game \<Rightarrow> ndarray \<Rightarrow> ndarray" where
  "count_neighbors s g =
     (let padded = np_pad g;
          neighbors = zeros_like g
      in fold (\<lambda>(i, j) neighbors.
                 if i = 1 \<and> j = 1 then neighbors
                 else iadd neighbors (slice2 padded i (nat (height s)) j (nat (width s))))
              (List.product [0..<3] [0..<3]) neighbors)"

definition step :: "game \<Rightarrow> game" where
  "step s =
     (let neighbors = count_neighbors s (grid s);
          new_grid = zeros_like (grid s);
          new_grid = assign_mask new_grid
                       (mask_and (eq_scalar (grid s) 1)
                          (mask_or (eq_scalar neighbors 2) (eq_scalar neighbors 3))) 1;
          new_grid = assign_mask new_grid
                       (mask_and (eq_scalar (grid s) 0) (eq_scalar neighbors 3)) 1
      in s\<lparr>grid := new_grid, generation := generation s + 1\<rparr>)"

text \<open>
  The rule as the specification words it: the state of the cell at \<open>(r, c)\<close>, DEAD (0)
  outside the grid, and the number of ALIVE cells among the eight Moore neighbours.
\<close>

definition cell_at :: "game \<Rightarrow> int \<Rightarrow> int \<Rightarrow> int" where
  "cell_at s r c =
     (if 0 \<le> r \<and> r < height s \<and> 0 \<le> c \<and> c < width s then grid s ! nat r ! nat c else 0)"

definition moore_count :: "game \<Rightarrow> int \<Rightarrow> int \<Rightarrow> int" where
  "moore_count s r c =
     cell_at s (r - 1) (c - 1) + cell_at s (r - 1) c + cell_at s (r - 1) (c + 1)
   + cell_at s r (c - 1) + cell_at s r (c + 1)
   + cell_at s (r + 1) (c - 1) + cell_at s (r + 1) c + cell_at s (r + 1) (c + 1)"

definition alive_next :: "game \<Rightarrow> int \<Rightarrow> int \<Rightarrow> bool" where
  "alive_next s r c \<longleftrightarrow>
     (cell_at s r c = 1 \<and> (moore_count s r c = 2 \<or> moore_count s r c = 3))
   \<or> (cell_at s r c = 0 \<and> moore_count s r c = 3)"

subsection \<open>Construction, reset and clear\<close>

text \<open>
  \<^verbatim>\<open>np.random.choice([0, 1], size=(height, width), p=[1 - d, d])\<close> raises ValueError
  when a probability is negative, and ValueError when a dimension is negative; a
  dimension of 0 gives an array without cells. Otherwise the generator picks, for every
  cell, one of the two elements of \<^verbatim>\<open>[0, 1]\<close>; the picks are the argument \<open>rng\<close>
  (\<open>rng r c\<close> holds where the second element is picked). Only the signs of the two
  probabilities are used, and they are those of the exact \<open>1 - d\<close> and \<open>d\<close>.
  \<^verbatim>\<open>np.zeros\<close> raises ValueError on a negative dimension. Both calls are described
  for arrays that numpy can allocate; what is proved about a successful construction
  below is stated for at most 4096 rows and 4096 columns.
  \<^verbatim>\<open>pygame.display.set_mode\<close> raises \<^verbatim>\<open>pygame.error\<close> on a negative width or height,
  and on a width or height above 16384 pixels, the largest window that SDL creates.
\<close>

definition random_choice :: "(nat \<Rightarrow> nat \<Rightarrow> bool) \<Rightarrow> int \<Rightarrow> int \<Rightarrow> rat \<Rightarrow> error + ndarray" where
  "random_choice rng h w d =
     (let p = [1 - d, d] in
      if list_ex (\<lambda>q. q < 0) p then Inl ValueError
      else if h < 0 \<or> w < 0 then Inl ValueError
      else Inr (map (\<lambda>r. map (\<lambda>c. if rng r c then 1 else 0) [0..<nat w]) [0..<nat h]))"

definition np_zeros :: "int \<Rightarrow> int \<Rightarrow> error + ndarray" where
  "np_zeros h w =
     (if h < 0 \<or> w < 0 then Inl ValueError else Inr (replicate (nat h) (replicate (nat w) 0)))"

definition set_mode :: "int \<Rightarrow> int \<Rightarrow> error + unit" where
  "set_mode w h =
     (if w < 0 \<or> h < 0 then Inl PygameError
      else if 16384 < w \<or> 16384 < h then Inl PygameError
      else Inr ())"

definition init :: "(nat \<Rightarrow> nat \<Rightarrow> bool) \<Rightarrow> int \<Rightarrow> int \<Rightarrow> int \<Rightarrow> rat \<Rightarrow> error + game" where
  "init rng width' height' cell_size' random_density =
     and_then (random_choice rng height' width' random_density) (\<lambda>g.
     let sw = width' * cell_size';
         sh = height' * cell_size' + 50
     in and_then (set_mode sw sh) (\<lambda>_.
        Inr \<lparr>width = width', height = height', cell_size = cell_size', grid = g,
             screen_width = sw, screen_height = sh,
             running = True, paused = True, generation = 0, fps = 10,
             offset_x = 0, offset_y = 0, pan_speed = 32,
             min_cell_size = 1, max_cell_size = 32\<rparr>))"

definition reset :: "(nat \<Rightarrow> nat \<Rightarrow> bool) \<Rightarrow> game \<Rightarrow> rat \<Rightarrow> error + game" where
  "reset rng s random_density =
     and_then (random_choice rng (height s) (width s) random_density) (\<lambda>g.
     Inr (s\<lparr>grid := g, generation := 0, paused := True\<rparr>))"

definition clear :: "game \<Rightarrow> error + game" where
  "clear s =
     and_then (np_zeros (height s) (width s)) (\<lambda>g.
     Inr (s\<lparr>grid := g, generation := 0, paused := True\<rparr>))"

subsection \<open>The event loop of run\<close>

datatype key =
  K_SPACE | K_r | K_c | K_PLUS | K_EQUALS | K_MINUS | K_LEFT | K_RIGHT | K_UP | K_DOWN | K_other

text \<open>
  The events that \<^verbatim>\<open>run\<close> distinguishes. \<open>MOUSEWHEEL\<close> carries \<^verbatim>\<open>event.y\<close> and the
  position that \<^verbatim>\<open>pygame.mouse.get_pos()\<close> returns; \<open>VIDEORESIZE\<close> carries
  \<^verbatim>\<open>event.w\<close> and \<^verbatim>\<open>event.h\<close>.
\<close>

datatype event =
  QUIT
  | KEYDOWN key
  | MOUSEBUTTONDOWN "int \<times> int"
  | MOUSEWHEEL int "int \<times> int"
  | VIDEORESIZE int int
  | MOUSEBUTTONUP
  | MOUSEMOTION "int \<times> int"
  | Other_event

text \<open>
  One pass of the body of \<^verbatim>\<open>for event in pygame.event.get()\<close>, on the game and the
  local variable \<^verbatim>\<open>mouse_pressed\<close>. \<^verbatim>\<open>self.reset()\<close> uses the default density 0.3.
\<close>

fun handle_key :: "(nat \<Rightarrow> nat \<Rightarrow> bool) \<Rightarrow> game \<Rightarrow> key \<Rightarrow> error + game" where
  "handle_key rng s K_SPACE = Inr (s\<lparr>paused := \<not> paused s\<rparr>)"
| "handle_key rng s K_r = reset rng s (3 / 10)"
| "handle_key rng s K_c = clear s"
| "handle_key rng s K_PLUS = Inr (s\<lparr>fps := min 60 (fps s + 5)\<rparr>)"
| "handle_key rng s K_EQUALS = Inr (s\<lparr>fps := min 60 (fps s + 5)\<rparr>)"
| "handle_key rng s K_MINUS = Inr (s\<lparr>fps := max 1 (fps s - 5)\<rparr>)"
| "handle_key rng s K_LEFT = Inr (s\<lparr>offset_x := max 0 (offset_x s - pan_speed s)\<rparr>)"
| "handle_key rng s K_RIGHT = Inr (clamp_offsets (s\<lparr>offset_x := offset_x s + pan_speed s\<rparr>))"
| "handle_key rng s K_UP = Inr (s\<lparr>offset_y := max 0 (offset_y s - pan_speed s)\<rparr>)"
| "handle_key rng s K_DOWN = Inr (clamp_offsets (s\<lparr>offset_y := offset_y s + pan_speed s\<rparr>))"
| "handle_key rng s K_other = Inr s"

fun handle_event :: "(nat \<Rightarrow> nat \<Rightarrow> bool) \<Rightarrow> game \<times> bool \<Rightarrow> event \<Rightarrow> error + game \<times> bool" where
  "handle_event rng (s, mouse_pressed) QUIT = Inr (s\<lparr>running := False\<rparr>, mouse_pressed)"
| "handle_event rng (s, mouse_pressed) (KEYDOWN k) =
     and_then (handle_key rng s k) (\<lambda>s'. Inr (s', mouse_pressed))"
| "handle_event rng (s, mouse_pressed) (MOUSEBUTTONDOWN pos) =
     and_then (handle_mouse s pos) (\<lambda>s'. Inr (s', True))"
| "handle_event rng (s, mouse_pressed) (MOUSEWHEEL y (mx, my)) =
     (let new_size = (if y > 0 then min (max_cell_size s) (cell_size s + 1)
                      else max (min_cell_size s) (cell_size s - 1))
      in and_then (zoom_at s mx my new_size) (\<lambda>s'. Inr (s', mouse_pressed)))"
| "handle_event rng (s, mouse_pressed) (VIDEORESIZE w h) =
     (let s1 = s\<lparr>screen_width := w, screen_height := h\<rparr>
      in and_then (set_mode (screen_width s1) (screen_height s1)) (\<lambda>_.
         Inr (clamp_offsets s1, mouse_pressed)))"
| "handle_event rng (s, mouse_pressed) MOUSEBUTTONUP = Inr (s, False)"
| "handle_event rng (s, mouse_pressed) (MOUSEMOTION pos) =
     (if mouse_pressed then and_then (handle_mouse s pos) (\<lambda>s'. Inr (s', mouse_pressed))
      else Inr (s, mouse_pressed))"
| "handle_event rng (s, mouse_pressed) Other_event = Inr (s, mouse_pressed)"

text \<open>
  The states the program can be in: the constructed one, and from any of them the one
  after an event that raises nothing, and the next generation while not paused.
\<close>

inductive reachable :: "game \<times> bool \<Rightarrow> bool" where
  start: "init rng w h cs d = Inr s \<Longrightarrow> reachable (s, False)"
| event: "reachable sm \<Longrightarrow> handle_event rng sm e = Inr sm' \<Longrightarrow> reachable sm'"
| generation: "reachable (s, m) \<Longrightarrow> \<not> paused s \<Longrightarrow> reachable (step s, m)"

text \<open>The range that \<^verbatim>\<open>clamp_offsets\<close> keeps the offsets in.\<close>

definition max_offset_x :: "game \<Rightarrow> int" where
  "max_offset_x s = max 0 (width s * cell_size s - screen_width s)"

definition max_offset_y :: "game \<Rightarrow> int" where
  "max_offset_y s = max 0 (height s * cell_size s - (screen_height s - 50))"

definition offsets_ok :: "game \<Rightarrow> bool" where
  "offsets_ok s \<longleftrightarrow>
     0 \<le> offset_x s \<and> offset_x s \<le> max_offset_x s \<and>
     0 \<le> offset_y s \<and> offset_y s \<le> max_offset_y s"

subsection \<open>Auxiliary notions for the proofs\<close>

text \<open>An array with \<open>h\<close> rows of \<open>w\<close> entries each.\<close>

definition shaped :: "'a list list \<Rightarrow> nat \<Rightarrow> nat \<Rightarrow> bool" where
  "shaped a h w \<longleftrightarrow> length a = h \<and> (\<forall>row \<in> set a. length row = w)"

text \<open>What the event loop maintains about the viewport.\<close>

definition viewport_inv :: "game \<Rightarrow> bool" where
  "viewport_inv s \<longleftrightarrow> offsets_ok s \<and> 0 \<le> pan_speed s"

subsection \<open>Example states\<close>

text \<open>A grid of ten rows and three columns in a window that shows three of the rows.\<close>

definition small_game :: game where
  "small_game = \<lparr>width = 3, height = 10, cell_size = 8, grid = replicate 10 [0, 1, 0],
     screen_width = 24, screen_height = 74, running = True, paused = False, generation = 7,
     fps = 10, offset_x = 0, offset_y = 0, pan_speed = 32, min_cell_size = 1,
     max_cell_size = 32\<rparr>"

text \<open>The vertical blinker on a three by three grid.\<close>

definition blinker :: game where
  "blinker = \<lparr>width = 3, height = 3, cell_size = 8, grid = [[0, 1, 0], [0, 1, 0], [0, 1, 0]],
     screen_width = 24, screen_height = 74, running = True, paused = False, generation = 0,
     fps = 10, offset_x = 0, offset_y = 0, pan_speed = 32, min_cell_size = 1,
     max_cell_size = 32\<rparr>"

text \<open>The state after construction with three columns and two rows, a resize of the
  window to 10 by 60 pixels and one press of the right arrow key.\<close>

definition resized_game :: game where
  "resized_game = \<lparr>width = 3, height = 2, cell_size = 8, grid = [[1, 0, 1], [0, 1, 0]],
     screen_width = 10, screen_height = 60, running = True, paused = True, generation = 0,
     fps = 10, offset_x = 14, offset_y = 0, pan_speed = 32, min_cell_size = 1,
     max_cell_size = 32\<rparr>"

text \<open>
  A grid of ten by ten cells drawn with 4 pixels per cell in a window of 20 by 70
  pixels, scrolled by 3 pixels in both directions.
\<close>

definition round_game :: game where
  "round_game = \<lparr>width = 10, height = 10, cell_size = 4, grid = replicate 10 (replicate 10 0),
     screen_width = 20, screen_height = 70, running = True, paused = True, generation = 0,
     fps = 10, offset_x = 3, offset_y = 3, pan_speed = 32, min_cell_size = 1,
     max_cell_size = 32\<rparr>"

text \<open>
  The state after construction with ten by ten cells of 1 pixel, one wheel step up at
  the pixel \<open>(0, 0)\<close>, and the right and the down arrow key: 2 pixels per cell, scrolled
  to the far corner. \<open>zoomed_out\<close> is the same game with 1 pixel per cell, not scrolled.
\<close>

definition zoom_game :: game where
  "zoom_game = \<lparr>width = 10, height = 10, cell_size = 2, grid = replicate 10 (replicate 10 0),
     screen_width = 10, screen_height = 60, running = True, paused = True, generation = 0,
     fps = 10, offset_x = 10, offset_y = 10, pan_speed = 32, min_cell_size = 1,
     max_cell_size = 32\<rparr>"

definition zoomed_out :: game where
  "zoomed_out = zoom_game\<lparr>cell_size := 1, offset_x := 0, offset_y := 0\<rparr>"

section \<open>Properties\<close>

subsection \<open>Arrays of a known shape\<close>

lemma shape_ok_shaped: "shape_ok g h w \<Longrightarrow> shaped g (nat h) (nat w)"
  by (auto simp: shape_ok_def shaped_def list_all_iff)

lemma shaped_map_map: "shaped a h w \<Longrightarrow> shaped (map (map f) a) h w"
  by (simp add: shaped_def)

lemma nth_map_map: "shaped a h w \<Longrightarrow> r < h \<Longrightarrow> c < w \<Longrightarrow> map (map f) a ! r ! c = f (a ! r ! c)"
  by (simp add: shaped_def)

lemma shaped_elementwise:
  "shaped a h w \<Longrightarrow> shaped b h w \<Longrightarrow> shaped (elementwise f a b) h w"
  by (auto simp: shaped_def elementwise_def set_zip)

lemma nth_elementwise:
  "shaped a h w \<Longrightarrow> shaped b h w \<Longrightarrow> r < h \<Longrightarrow> c < w \<Longrightarrow>
   elementwise f a b ! r ! c = f (a ! r ! c) (b ! r ! c)"
  by (simp add: shaped_def elementwise_def)

lemma ncols_shaped: "shaped a h w \<Longrightarrow> 0 < h \<Longrightarrow> ncols a = w"
  by (cases a) (auto simp: shaped_def ncols_def)

lemma shaped_np_pad: "shaped a h w \<Longrightarrow> 0 < h \<Longrightarrow> shaped (np_pad a) (h + 2) (w + 2)"
  by (auto simp: np_pad_def Let_def ncols_shaped) (auto simp: shaped_def)

lemma nth_np_pad:
  assumes "shaped a h w" "0 < h" "k < h + 2" "l < w + 2"
  shows "np_pad a ! k ! l =
           (if 1 \<le> k \<and> k \<le> h \<and> 1 \<le> l \<and> l \<le> w then a ! (k - 1) ! (l - 1) else 0)"
proof -
  have n: "ncols a = w" using assms by (simp add: ncols_shaped)
  have la: "length a = h" using assms by (simp add: shaped_def)
  show ?thesis
  proof (cases "k = 0 \<or> k = h + 1")
    case True
    then show ?thesis using assms la n
      by (auto simp: np_pad_def Let_def nth_Cons' nth_append)
  next
    case False
    then have k: "1 \<le> k" "k \<le> h" using assms by auto
    then have "k - 1 < h" by simp
    with k have row: "np_pad a ! k = 0 # (a ! (k - 1)) @ [0]"
      using la by (simp add: np_pad_def Let_def nth_Cons' nth_append)
    have lr: "length (a ! (k - 1)) = w" using assms k by (simp add: shaped_def la)
    show ?thesis using k lr assms(4) unfolding row
      by (auto simp: nth_Cons' nth_append)
  qed
qed

lemma shaped_slice2:
  "shaped p (h + 2) (w + 2) \<Longrightarrow> i < 3 \<Longrightarrow> j < 3 \<Longrightarrow> shaped (slice2 p i h j w) h w"
  by (auto simp: shaped_def slice2_def dest!: in_set_takeD in_set_dropD)

lemma nth_slice2:
  "shaped p (h + 2) (w + 2) \<Longrightarrow> i < 3 \<Longrightarrow> j < 3 \<Longrightarrow> r < h \<Longrightarrow> c < w \<Longrightarrow>
   slice2 p i h j w ! r ! c = p ! (i + r) ! (j + c)"
  by (simp add: shaped_def slice2_def)

lemma product_range3:
  "List.product [0..<3] [0..<3::nat] = [(0,0),(0,1),(0,2),(1,0),(1,1),(1,2),(2,0),(2,1),(2,2)]"
  by code_simp

subsection \<open>The generation rule\<close>

lemma count_neighbors_unfold:
  "count_neighbors s g =
     (let p = np_pad g; h = nat (height s); w = nat (width s) in
      iadd (iadd (iadd (iadd (iadd (iadd (iadd (iadd (zeros_like g)
        (slice2 p 0 h 0 w)) (slice2 p 0 h 1 w)) (slice2 p 0 h 2 w))
        (slice2 p 1 h 0 w)) (slice2 p 1 h 2 w))
        (slice2 p 2 h 0 w)) (slice2 p 2 h 1 w)) (slice2 p 2 h 2 w))"
  by (simp add: count_neighbors_def product_range3 Let_def)

lemma nth_count_neighbors:
  assumes "shape_ok (grid s) (height s) (width s)" "int r < height s" "int c < width s"
  shows "count_neighbors s (grid s) ! r ! c = moore_count s (int r) (int c)"
proof -
  define h w where "h = nat (height s)" and "w = nat (width s)"
  define p where "p = np_pad (grid s)"
  have g: "shaped (grid s) h w" using assms(1) by (simp add: shape_ok_shaped h_def w_def)
  have r: "r < h" and c: "c < w" using assms by (simp_all add: h_def w_def)
  then have hpos: "0 < h" by simp
  have p: "shaped p (h + 2) (w + 2)" unfolding p_def using g hpos by (rule shaped_np_pad)
  have sl: "\<And>i j. i < 3 \<Longrightarrow> j < 3 \<Longrightarrow> shaped (slice2 p i h j w) h w"
    using p by (rule shaped_slice2)
  have z: "shaped (zeros_like (grid s)) h w" unfolding zeros_like_def using g by (rule shaped_map_map)
  have z0: "zeros_like (grid s) ! r ! c = 0"
    unfolding zeros_like_def using g r c by (simp add: nth_map_map)
  have ia: "\<And>a b. shaped a h w \<Longrightarrow> shaped b h w \<Longrightarrow> shaped (iadd a b) h w"
    unfolding iadd_def by (rule shaped_elementwise)
  have na: "\<And>a b. shaped a h w \<Longrightarrow> shaped b h w \<Longrightarrow> iadd a b ! r ! c = a ! r ! c + b ! r ! c"
    unfolding iadd_def using r c by (simp add: nth_elementwise)
  have cell: "\<And>i j. i < 3 \<Longrightarrow> j < 3 \<Longrightarrow>
      slice2 p i h j w ! r ! c = cell_at s (int r + int i - 1) (int c + int j - 1)"
  proof -
    fix i j :: nat assume i: "i < 3" and j: "j < 3"
    have "slice2 p i h j w ! r ! c = p ! (i + r) ! (j + c)"
      using p i j r c by (rule nth_slice2)
    also have "\<dots> = (if 1 \<le> i + r \<and> i + r \<le> h \<and> 1 \<le> j + c \<and> j + c \<le> w
                      then grid s ! (i + r - 1) ! (j + c - 1) else 0)"
      unfolding p_def using g hpos i j r c by (intro nth_np_pad) auto
    also have "\<dots> = cell_at s (int r + int i - 1) (int c + int j - 1)"
      using r c by (auto simp: cell_at_def h_def w_def nat_diff_distrib' algebra_simps
          intro!: arg_cong2[where f = "(!)"] arg_cong2[where f = "\<lambda>a b. grid s ! a ! b"])
    finally show "slice2 p i h j w ! r ! c = cell_at s (int r + int i - 1) (int c + int j - 1)" .
  qed
  show ?thesis
    unfolding count_neighbors_unfold Let_def p_def[symmetric] h_def[symmetric] w_def[symmetric]
    by (simp add: na ia sl z z0 cell moore_count_def add.commute)
qed


lemma shaped_count_neighbors:
  assumes "shape_ok (grid s) (height s) (width s)" "0 < height s"
  shows "shaped (count_neighbors s (grid s)) (nat (height s)) (nat (width s))"
proof -
  define h w where "h = nat (height s)" and "w = nat (width s)"
  define p where "p = np_pad (grid s)"
  have g: "shaped (grid s) h w" using assms(1) by (simp add: shape_ok_shaped h_def w_def)
  have hpos: "0 < h" using assms by (simp add: h_def)
  have p: "shaped p (h + 2) (w + 2)" unfolding p_def using g hpos by (rule shaped_np_pad)
  have sl: "\<And>i j. i < 3 \<Longrightarrow> j < 3 \<Longrightarrow> shaped (slice2 p i h j w) h w"
    using p by (rule shaped_slice2)
  have z: "shaped (zeros_like (grid s)) h w" unfolding zeros_like_def using g by (rule shaped_map_map)
  have ia: "\<And>a b. shaped a h w \<Longrightarrow> shaped b h w \<Longrightarrow> shaped (iadd a b) h w"
    unfolding iadd_def by (rule shaped_elementwise)
  show ?thesis
    unfolding count_neighbors_unfold Let_def p_def[symmetric] h_def[symmetric] w_def[symmetric]
    by (simp add: ia sl z)
qed

lemma nth_step:
  assumes "grid_ok s" "int r < height s" "int c < width s"
  shows "grid (step s) ! r ! c = (if alive_next s (int r) (int c) then 1 else 0)"
proof -
  define h w where "h = nat (height s)" and "w = nat (width s)"
  define n where "n = count_neighbors s (grid s)"
  have so: "shape_ok (grid s) (height s) (width s)" using assms(1) by (simp add: grid_ok_def)
  have g: "shaped (grid s) h w" using so by (simp add: shape_ok_shaped h_def w_def)
  have r: "r < h" and c: "c < w" using assms by (simp_all add: h_def w_def)
  have n: "shaped n h w" unfolding n_def h_def w_def
    using so assms(2) by (intro shaped_count_neighbors) auto
  have nrc: "n ! r ! c = moore_count s (int r) (int c)"
    unfolding n_def using so assms(2,3) by (rule nth_count_neighbors)
  have grc: "grid s ! r ! c = cell_at s (int r) (int c)"
    using assms by (simp add: cell_at_def)
  have sh: "\<And>a v. shaped a h w \<Longrightarrow> shaped (eq_scalar a v) h w"
    "\<And>a b. shaped a h w \<Longrightarrow> shaped b h w \<Longrightarrow> shaped (mask_and a b) h w"
    "\<And>a b. shaped a h w \<Longrightarrow> shaped b h w \<Longrightarrow> shaped (mask_or a b) h w"
    "\<And>a m v. shaped a h w \<Longrightarrow> shaped m h w \<Longrightarrow> shaped (assign_mask a m v) h w"
    "shaped (zeros_like (grid s)) h w"
    using g by (simp_all add: eq_scalar_def mask_and_def mask_or_def assign_mask_def zeros_like_def
        shaped_map_map shaped_elementwise)
  have nt: "\<And>a v. shaped a h w \<Longrightarrow> eq_scalar a v ! r ! c = (a ! r ! c = v)"
    "\<And>a b. shaped a h w \<Longrightarrow> shaped b h w \<Longrightarrow> mask_and a b ! r ! c = (a ! r ! c \<and> b ! r ! c)"
    "\<And>a b. shaped a h w \<Longrightarrow> shaped b h w \<Longrightarrow> mask_or a b ! r ! c = (a ! r ! c \<or> b ! r ! c)"
    "\<And>a m v. shaped a h w \<Longrightarrow> shaped m h w \<Longrightarrow>
       assign_mask a m v ! r ! c = (if m ! r ! c then v else a ! r ! c)"
    "zeros_like (grid s) ! r ! c = 0"
    using g r c by (simp_all add: eq_scalar_def mask_and_def mask_or_def assign_mask_def zeros_like_def
        nth_map_map nth_elementwise)
  show ?thesis
    unfolding step_def Let_def n_def[symmetric]
    by (simp add: sh nt g n nrc grc alive_next_def)
qed

lemma binary_assign_mask: "binary a \<Longrightarrow> binary (assign_mask a m 1)"
  by (auto simp: binary_def assign_mask_def elementwise_def list_all_iff set_zip)
     (metis nth_mem)

lemma binary_zeros_like: "binary (zeros_like a)"
  by (auto simp: binary_def zeros_like_def list_all_iff)

lemma grid_ok_step:
  assumes "grid_ok s"
  shows "grid_ok (step s)"
proof -
  have so: "shape_ok (grid s) (height s) (width s)" using assms(1) by (simp add: grid_ok_def)
  have b: "binary (grid (step s))"
    by (simp add: step_def Let_def binary_assign_mask binary_zeros_like)
  have "shape_ok (grid (step s)) (height s) (width s)"
  proof (cases "0 < height s")
    case False
    then have "int (length (grid s)) \<le> 0" using so by (simp add: shape_ok_def)
    then have "length (grid s) = 0" by linarith
    then have "grid s = []" by simp
    then show ?thesis using so
      by (simp add: step_def Let_def shape_ok_def assign_mask_def elementwise_def zeros_like_def)
  next
    case True
    define h w where "h = nat (height s)" and "w = nat (width s)"
    define n where "n = count_neighbors s (grid s)"
    have g: "shaped (grid s) h w" using so by (simp add: shape_ok_shaped h_def w_def)
    have n: "shaped n h w" unfolding n_def h_def w_def
      using so True by (rule shaped_count_neighbors)
    have sh: "\<And>a v. shaped a h w \<Longrightarrow> shaped (eq_scalar a v) h w"
      "\<And>a b. shaped a h w \<Longrightarrow> shaped b h w \<Longrightarrow> shaped (mask_and a b) h w"
      "\<And>a b. shaped a h w \<Longrightarrow> shaped b h w \<Longrightarrow> shaped (mask_or a b) h w"
      "\<And>a m v. shaped a h w \<Longrightarrow> shaped m h w \<Longrightarrow> shaped (assign_mask a m v) h w"
      "shaped (zeros_like (grid s)) h w"
      using g by (simp_all add: eq_scalar_def mask_and_def mask_or_def assign_mask_def zeros_like_def
          shaped_map_map shaped_elementwise)
    have "shaped (grid (step s)) h w"
      unfolding step_def Let_def n_def[symmetric] by (simp add: sh g n)
    moreover have "0 \<le> width s" using so True by (cases "grid s") (auto simp: shape_ok_def)
    ultimately show ?thesis using True
      by (auto simp: shaped_def shape_ok_def list_all_iff h_def w_def)
  qed
  then show ?thesis using b by (simp add: grid_ok_def step_def Let_def)
qed

text \<open>
  C1. On a grid of shape \<open>(height, width)\<close> with entries 0 and 1, the cell \<open>(r, c)\<close> of
  the grid after \<open>step\<close> is ALIVE (1) if and only if, in the grid before the step, it
  was ALIVE with two or three ALIVE Moore neighbours or DEAD with exactly three, cells
  outside the grid counting as DEAD; otherwise it is DEAD (0). The new grid has the same
  shape, nothing but the grid and the generation counter changes, and the counter grows
  by exactly 1.
\<close>

theorem step_rule:
  assumes "grid_ok s" "int r < height s" "int c < width s"
  shows "grid (step s) ! r ! c = (if alive_next s (int r) (int c) then 1 else 0)
       \<and> grid_ok (step s)
       \<and> generation (step s) = generation s + 1
       \<and> step s = s\<lparr>grid := grid (step s), generation := generation s + 1\<rparr>"
  using nth_step [OF assms] grid_ok_step [OF assms(1)]
  by (simp add: step_def Let_def)

theorem step_rule_witness:
  "grid_ok blinker \<and> grid (step blinker) ! 1 ! 0 = 1 \<and> grid (step blinker) ! 0 ! 1 = 0
   \<and> generation (step blinker) = 1"
proof -
  have ok: "grid_ok blinker" by code_simp
  have a: "alive_next blinker (int 1) (int 0)" "\<not> alive_next blinker (int 0) (int 1)"
    by code_simp+
  have d: "int 1 < height blinker" "int 0 < width blinker" "int 0 < height blinker"
    "int 1 < width blinker" "generation blinker = 0"
    by (simp_all add: blinker_def)
  show ?thesis
    using step_rule [OF ok d(1) d(2)] step_rule [OF ok d(3) d(4)] a ok d(5) by simp
qed

subsection \<open>Toggling a cell\<close>

lemma nth_toggle:
  assumes "gy < length g" "gx < length (g ! gy)" "r < length g" "c < length (g ! r)"
  shows "toggle g gy gx ! r ! c = (if r = gy \<and> c = gx then 1 - g ! r ! c else g ! r ! c)"
  using assms by (auto simp: toggle_def nth_list_update)

lemma shape_ok_toggle:
  assumes "shape_ok g h w"
  shows "shape_ok (toggle g gy gx) h w"
proof -
  have "length (toggle g gy gx ! n) = length (g ! n)" if "n < length g" for n
    using that by (cases "n = gy") (simp_all add: toggle_def)
  then show ?thesis using assms by (simp add: shape_ok_def list_all_length toggle_def)
qed

lemma binary_toggle:
  assumes "binary g"
  shows "binary (toggle g gy gx)"
proof -
  have row: "list_all (\<lambda>v. v = 0 \<or> v = 1) ((g ! gy)[gx := 1 - g ! gy ! gx])" if "gy < length g"
  proof -
    have a: "list_all (\<lambda>v. v = 0 \<or> v = 1) (g ! gy)"
      using assms that by (simp add: binary_def list_all_length)
    show ?thesis
    proof (cases "gx < length (g ! gy)")
      case True
      then have "g ! gy ! gx = 0 \<or> g ! gy ! gx = 1" using a by (simp add: list_all_length)
      then show ?thesis using a True by (auto simp: list_all_length nth_list_update)
    next
      case False
      then show ?thesis using a by (simp add: list_update_beyond)
    qed
  qed
  show ?thesis
  proof (cases "gy < length g")
    case True
    then show ?thesis using assms row
      unfolding binary_def toggle_def by (auto simp: list_all_length nth_list_update)
  next
    case False
    then show ?thesis using assms by (simp add: toggle_def list_update_beyond)
  qed
qed

text \<open>
  C7. A click in the grid area whose pixel maps to coordinates outside
  \<open>[0, width) \<times> [0, height)\<close> raises nothing and returns the state as it was. A click
  that maps to a cell of the grid replaces that cell's value \<open>v\<close> by \<open>1 - v\<close>, which
  flips it, and changes no other cell and no other field.
\<close>

theorem handle_mouse_toggle:
  assumes ok: "grid_ok s" and y: "y < screen_height s - 50"
    and m: "screen_to_grid s x y = Inr (gx, gy)"
  shows "if 0 \<le> gx \<and> gx < width s \<and> 0 \<le> gy \<and> gy < height s
         then \<exists>g'. handle_mouse s (x, y) = Inr (s\<lparr>grid := g'\<rparr>) \<and> grid_ok (s\<lparr>grid := g'\<rparr>)
                \<and> g' ! nat gy ! nat gx = 1 - grid s ! nat gy ! nat gx
                \<and> (\<forall>r c. r < nat (height s) \<and> c < nat (width s) \<and> (r, c) \<noteq> (nat gy, nat gx)
                      \<longrightarrow> g' ! r ! c = grid s ! r ! c)
         else handle_mouse s (x, y) = Inr s"
proof (cases "0 \<le> gx \<and> gx < width s \<and> 0 \<le> gy \<and> gy < height s")
  case False
  then show ?thesis using y m by (auto simp: handle_mouse_def)
next
  case True
  define g' where "g' = toggle (grid s) (nat gy) (nat gx)"
  have so: "shape_ok (grid s) (height s) (width s)" and b: "binary (grid s)"
    using ok by (simp_all add: grid_ok_def)
  have len: "length (grid s) = nat (height s)" using so by (auto simp: shape_ok_def)
  have rows: "\<And>r. r < nat (height s) \<Longrightarrow> length (grid s ! r) = nat (width s)"
  proof -
    fix r assume "r < nat (height s)"
    then have "r < length (grid s)" using len by simp
    then have "int (length (grid s ! r)) = width s"
      using so by (simp add: shape_ok_def list_all_length)
    then show "length (grid s ! r) = nat (width s)" by simp
  qed
  have h: "handle_mouse s (x, y) = Inr (s\<lparr>grid := g'\<rparr>)"
    using True y m by (simp add: handle_mouse_def g'_def)
  have gok: "grid_ok (s\<lparr>grid := g'\<rparr>)"
    using so b by (simp add: grid_ok_def g'_def shape_ok_toggle binary_toggle)
  have gy: "nat gy < length (grid s)" and gx: "nat gx < length (grid s ! nat gy)"
    using True len rows by auto
  have flip: "g' ! nat gy ! nat gx = 1 - grid s ! nat gy ! nat gx"
    unfolding g'_def using gy gx by (simp add: nth_toggle)
  have rest: "g' ! r ! c = grid s ! r ! c"
    if "r < nat (height s)" "c < nat (width s)" "(r, c) \<noteq> (nat gy, nat gx)" for r c
    unfolding g'_def using gy gx that len rows by (auto simp: nth_toggle)
  show ?thesis using True h gok flip rest by auto
qed

theorem handle_mouse_toggle_witness:
  "(\<exists>g'. handle_mouse small_game (20, 10) = Inr (small_game\<lparr>grid := g'\<rparr>)
        \<and> g' ! 1 ! 2 = 1 - grid small_game ! 1 ! 2)
   \<and> handle_mouse small_game (24, 10) = Inr small_game"
proof -
  have ok: "grid_ok small_game"
    by code_simp
  have y: "10 < screen_height small_game - 50" by (simp add: small_game_def)
  have m1: "screen_to_grid small_game 20 10 = Inr (2, 1)"
    by (simp add: screen_to_grid_def small_game_def)
  have m2: "screen_to_grid small_game 24 10 = Inr (3, 1)"
    by (simp add: screen_to_grid_def small_game_def)
  have w: "width small_game = 3" "height small_game = 10" by (simp_all add: small_game_def)
  show ?thesis
    using handle_mouse_toggle [OF ok y m1] handle_mouse_toggle [OF ok y m2]
    by (simp add: w) blast
qed

text \<open>
  C10. A click at a pixel with \<open>y \<ge> screen_height - 50\<close> returns the state as it was,
  whatever cell the pixel maps to; the witness is a pixel of the strip that maps to the
  cell \<open>(3, 0)\<close> of the grid.
\<close>

theorem click_in_ui_strip:
  assumes "screen_height s - 50 \<le> y"
  shows "handle_mouse s (x, y) = Inr s"
  using assms by (simp add: handle_mouse_def)

theorem click_in_ui_strip_witness:
  "screen_height small_game - 50 \<le> 30
   \<and> screen_to_grid small_game 5 30 = Inr (0, 3)
   \<and> 0 \<le> (3::int) \<and> 3 < height small_game \<and> 0 \<le> (0::int) \<and> 0 < width small_game
   \<and> handle_mouse small_game (5, 30) = Inr small_game"
  using click_in_ui_strip [of small_game 30 5]
  by (simp add: small_game_def screen_to_grid_def)

subsection \<open>Construction, reset and clear\<close>

lemma random_choice_ok:
  assumes "0 \<le> h" "0 \<le> w" "0 \<le> d" "d \<le> 1"
  shows "\<exists>g. random_choice rng h w d = Inr g \<and> shape_ok g h w \<and> binary g"
  using assms
  by (auto simp: random_choice_def shape_ok_def binary_def list_all_iff)

lemma random_choice_density: "d < 0 \<or> 1 < d \<Longrightarrow> random_choice rng h w d = Inl ValueError"
  by (auto simp: random_choice_def)

lemma random_choice_dimension: "h < 0 \<or> w < 0 \<Longrightarrow> random_choice rng h w d = Inl ValueError"
  by (auto simp: random_choice_def)

text \<open>
  C6. On a state whose dimensions are not negative, \<open>reset\<close> with a density in
  \<open>[0, 1]\<close> and \<open>clear\<close> both return a state that is paused and at generation 0;
  after \<open>clear\<close> every cell is DEAD (0), the grid has the shape \<open>(height, width)\<close>, and
  \<open>height\<close> and \<open>width\<close> are as before.
\<close>

theorem reset_clear:
  assumes "0 \<le> height s" "0 \<le> width s" "0 \<le> d" "d \<le> 1"
  shows "\<exists>s1 s2. reset rng s d = Inr s1 \<and> paused s1 \<and> generation s1 = 0
           \<and> clear s = Inr s2 \<and> paused s2 \<and> generation s2 = 0
           \<and> list_all (list_all (\<lambda>v. v = 0)) (grid s2)
           \<and> shape_ok (grid s2) (height s) (width s)
           \<and> height s2 = height s \<and> width s2 = width s"
proof -
  obtain g where g: "random_choice rng (height s) (width s) d = Inr g"
    using random_choice_ok[OF assms] by blast
  have "reset rng s d = Inr (s\<lparr>grid := g, generation := 0, paused := True\<rparr>)"
    by (simp add: reset_def and_then_def g)
  moreover have "clear s =
      Inr (s\<lparr>grid := replicate (nat (height s)) (replicate (nat (width s)) 0),
              generation := 0, paused := True\<rparr>)"
    using assms by (simp add: clear_def np_zeros_def and_then_def)
  ultimately show ?thesis using assms
    by (simp add: shape_ok_def list_all_iff)
qed

theorem reset_clear_witness:
  "\<exists>s1 s2. reset (\<lambda>r c. even (r + c)) small_game (3 / 10) = Inr s1 \<and> paused s1 \<and> generation s1 = 0
           \<and> clear small_game = Inr s2 \<and> paused s2 \<and> generation s2 = 0
           \<and> list_all (list_all (\<lambda>v. v = 0)) (grid s2)
           \<and> shape_ok (grid s2) 10 3
           \<and> height s2 = 10 \<and> width s2 = 3"
  using reset_clear [of small_game "3 / 10" "\<lambda>r c. even (r + c)"]
  by (simp add: small_game_def)


lemma random_choice_Inr:
  assumes "random_choice rng h w d = Inr g"
  shows "shape_ok g h w \<and> binary g"
proof -
  have "0 \<le> h \<and> 0 \<le> w \<and> 0 \<le> d \<and> d \<le> 1"
    using assms by (auto simp: random_choice_def split: if_splits)
  then show ?thesis using random_choice_ok [of h w d rng] assms by auto
qed

text \<open>
  C3 (as the code has it). Construction raises ValueError when \<open>height\<close> or \<open>width\<close>
  is negative or the density lies outside \<open>[0, 1]\<close>, and \<open>reset\<close> raises ValueError when
  the density lies outside \<open>[0, 1]\<close>. With \<open>height\<close> and \<open>width\<close> from 0 (which is
  accepted) to 4096, a density in \<open>[0, 1]\<close> and a window of \<open>width * cell_size\<close> by
  \<open>height * cell_size + 50\<close> pixels, both from 0 to 16384, construction returns a state.
  Whenever construction returns a state, its grid has exactly \<open>height\<close> rows of
  \<open>width\<close> cells, each 0 or 1.
\<close>

theorem construction:
  "(h < 0 \<or> w < 0 \<or> d < 0 \<or> 1 < d \<longrightarrow> init rng w h cs d = Inl ValueError)
   \<and> (d < 0 \<or> 1 < d \<longrightarrow> reset rng s d = Inl ValueError)
   \<and> (0 \<le> h \<and> h \<le> 4096 \<and> 0 \<le> w \<and> w \<le> 4096 \<and> 0 \<le> d \<and> d \<le> 1
        \<and> 0 \<le> w * cs \<and> w * cs \<le> 16384 \<and> 0 \<le> h * cs + 50 \<and> h * cs + 50 \<le> 16384 \<longrightarrow>
        (\<exists>s'. init rng w h cs d = Inr s'))
   \<and> (\<forall>s'. init rng w h cs d = Inr s' \<longrightarrow>
          height s' = h \<and> width s' = w \<and> shape_ok (grid s') h w \<and> binary (grid s'))"
proof -
  have c1: "init rng w h cs d = Inl ValueError" if "h < 0 \<or> w < 0 \<or> d < 0 \<or> 1 < d"
  proof -
    have "random_choice rng h w d = Inl ValueError"
      using that random_choice_density [of d rng h w] random_choice_dimension [of h w rng d]
      by blast
    then show ?thesis by (simp add: init_def and_then_def)
  qed
  have c2: "reset rng s d = Inl ValueError" if "d < 0 \<or> 1 < d"
    using that by (simp add: reset_def and_then_def random_choice_density)
  have c3: "\<exists>s'. init rng w h cs d = Inr s'"
    if a: "0 \<le> h \<and> h \<le> 4096 \<and> 0 \<le> w \<and> w \<le> 4096 \<and> 0 \<le> d \<and> d \<le> 1
        \<and> 0 \<le> w * cs \<and> w * cs \<le> 16384 \<and> 0 \<le> h * cs + 50 \<and> h * cs + 50 \<le> 16384"
  proof -
    obtain g where g: "random_choice rng h w d = Inr g"
      using a random_choice_ok [of h w d rng] by blast
    have "set_mode (w * cs) (h * cs + 50) = Inr ()" using a by (simp add: set_mode_def)
    then show ?thesis using g by (simp add: init_def and_then_def Let_def)
  qed
  have c4: "height s' = h \<and> width s' = w \<and> shape_ok (grid s') h w \<and> binary (grid s')"
    if i: "init rng w h cs d = Inr s'" for s'
  proof -
    obtain g where g: "random_choice rng h w d = Inr g"
      using i by (auto simp: init_def and_then_def split: sum.splits)
    have "shape_ok g h w \<and> binary g" using g by (rule random_choice_Inr)
    moreover have "grid s' = g \<and> height s' = h \<and> width s' = w"
      using i g by (auto simp: init_def and_then_def Let_def split: sum.splits)
    ultimately show ?thesis by simp
  qed
  show ?thesis using c1 c2 c3 c4 by blast
qed

theorem construction_witness:
  "init (\<lambda>r c. even (r + c)) 3 (- 1) 8 (3 / 10) = Inl ValueError
   \<and> init (\<lambda>r c. even (r + c)) 3 2 8 (13 / 10) = Inl ValueError
   \<and> reset (\<lambda>r c. even (r + c)) small_game (- 1 / 10) = Inl ValueError
   \<and> (\<exists>s'. init (\<lambda>r c. even (r + c)) 3 2 8 (3 / 10) = Inr s' \<and> height s' = 2 \<and> width s' = 3
          \<and> shape_ok (grid s') 2 3 \<and> binary (grid s'))"
  using construction [of "- 1" 3 "3 / 10" "\<lambda>r c. even (r + c)" 8 small_game]
    construction [of 2 3 "13 / 10" "\<lambda>r c. even (r + c)" 8 small_game]
    construction [of 2 3 "- 1 / 10" "\<lambda>r c. even (r + c)" 8 small_game]
    construction [of 2 3 "3 / 10" "\<lambda>r c. even (r + c)" 8 small_game]
  by auto

text \<open>
  Construction with \<open>height = 0\<close> does not fail: it returns a game with an empty grid.
\<close>

theorem construction_height_zero:
  "init (\<lambda>r c. even (r + c)) 5 0 8 (3 / 10) =
     Inr \<lparr>width = 5, height = 0, cell_size = 8, grid = [],
          screen_width = 40, screen_height = 50, running = True, paused = True,
          generation = 0, fps = 10, offset_x = 0, offset_y = 0, pan_speed = 32,
          min_cell_size = 1, max_cell_size = 32\<rparr>"
  by (simp add: init_def random_choice_def and_then_def set_mode_def)

subsection \<open>Viewport\<close>

text \<open>
  C9. \<open>clamp_offsets\<close> is idempotent: a second application leaves the state,
  and so both offsets, as the first one made them.
\<close>

theorem clamp_offsets_idempotent:
  "clamp_offsets (clamp_offsets s) = clamp_offsets s"
  by (simp add: clamp_offsets_def Let_def)

text \<open>
  C8. Round trip: the pixel at which a cell is drawn maps back to that cell, for every
  offset and every cell size other than 0 (so for every size in the valid range from
  \<open>min_cell_size = 1\<close> up).
\<close>

theorem screen_to_grid_grid_to_screen:
  assumes "cell_size s \<noteq> 0"
  shows "(case grid_to_screen s c r of (sx, sy) \<Rightarrow> screen_to_grid s sx sy) = Inr (c, r)"
  using assms by (simp add: grid_to_screen_def screen_to_grid_def)

theorem screen_to_grid_grid_to_screen_witness:
  "cell_size small_game \<noteq> 0 \<and> grid_to_screen small_game 2 9 = (16, 72)
   \<and> screen_to_grid small_game 16 72 = Inr (2, 9)"
  using screen_to_grid_grid_to_screen [of small_game 2 9]
  by (simp add: small_game_def grid_to_screen_def)

subsection \<open>The offsets stay in range\<close>

lemma offsets_ok_clamp_offsets: "offsets_ok (clamp_offsets s)"
  by (simp add: offsets_ok_def clamp_offsets_def max_offset_x_def max_offset_y_def Let_def)

lemma pan_speed_clamp_offsets: "pan_speed (clamp_offsets s) = pan_speed s"
  by (simp add: clamp_offsets_def Let_def)

lemma viewport_inv_clamp: "0 \<le> pan_speed s \<Longrightarrow> viewport_inv (clamp_offsets s)"
  by (simp add: viewport_inv_def offsets_ok_clamp_offsets pan_speed_clamp_offsets)

lemma viewport_inv_pan: "viewport_inv s \<Longrightarrow> 0 \<le> pan_speed s"
  by (simp add: viewport_inv_def)

lemma viewport_inv_cong:
  assumes "viewport_inv s"
    and "width s' = width s" "height s' = height s" "cell_size s' = cell_size s"
    and "screen_width s' = screen_width s" "screen_height s' = screen_height s"
    and "offset_x s' = offset_x s" "offset_y s' = offset_y s" "pan_speed s' = pan_speed s"
  shows "viewport_inv s'"
  using assms by (simp add: viewport_inv_def offsets_ok_def max_offset_x_def max_offset_y_def)

lemma viewport_inv_step: "viewport_inv s \<Longrightarrow> viewport_inv (step s)"
  by (erule viewport_inv_cong) (simp_all add: step_def Let_def)

lemma viewport_inv_reset: "viewport_inv s \<Longrightarrow> reset rng s d = Inr s' \<Longrightarrow> viewport_inv s'"
  by (erule viewport_inv_cong) (auto simp: reset_def and_then_def split: sum.splits)

lemma viewport_inv_clear: "viewport_inv s \<Longrightarrow> clear s = Inr s' \<Longrightarrow> viewport_inv s'"
  by (erule viewport_inv_cong) (auto simp: clear_def and_then_def split: sum.splits)

lemma viewport_inv_handle_mouse:
  "viewport_inv s \<Longrightarrow> handle_mouse s pos = Inr s' \<Longrightarrow> viewport_inv s'"
  by (erule viewport_inv_cong)
     (auto simp: handle_mouse_def split: sum.splits prod.splits if_splits)

lemma viewport_inv_zoom_at:
  assumes "viewport_inv s" "zoom_at s fx fy new = Inr s'"
  shows "viewport_inv s'"
proof (cases "new = cell_size s")
  case True
  then show ?thesis using assms by (simp add: zoom_at_def)
next
  case False
  then obtain ox oy where
    "s' = clamp_offsets (s\<lparr>cell_size := new, offset_x := ox, offset_y := oy\<rparr>)"
    using assms(2) by (auto simp: zoom_at_def and_then_def Let_def split: sum.splits)
  then show ?thesis using viewport_inv_pan [OF assms(1)] by (simp add: viewport_inv_clamp)
qed

lemma viewport_inv_handle_key:
  assumes "viewport_inv s" "handle_key rng s k = Inr s'"
  shows "viewport_inv s'"
proof (cases k)
  case K_r
  then show ?thesis using assms by (auto intro: viewport_inv_reset)
next
  case K_c
  then show ?thesis using assms by (auto intro: viewport_inv_clear)
next
  case K_LEFT
  then show ?thesis using assms
    by (auto simp: viewport_inv_def offsets_ok_def max_offset_x_def max_offset_y_def)
next
  case K_UP
  then show ?thesis using assms
    by (auto simp: viewport_inv_def offsets_ok_def max_offset_x_def max_offset_y_def)
next
  case K_RIGHT
  then show ?thesis using assms(2) viewport_inv_pan [OF assms(1)]
    by (auto intro!: viewport_inv_clamp)
next
  case K_DOWN
  then show ?thesis using assms(2) viewport_inv_pan [OF assms(1)]
    by (auto intro!: viewport_inv_clamp)
qed (use assms in \<open>auto simp: viewport_inv_def offsets_ok_def max_offset_x_def max_offset_y_def\<close>)

lemma viewport_inv_handle_event:
  assumes "viewport_inv s" "handle_event rng (s, m) e = Inr (s', m')"
  shows "viewport_inv s'"
proof (cases e)
  case QUIT
  then show ?thesis using assms
    by (auto simp: viewport_inv_def offsets_ok_def max_offset_x_def max_offset_y_def)
next
  case (KEYDOWN k)
  then show ?thesis using assms
    by (auto simp: and_then_def split: sum.splits intro: viewport_inv_handle_key)
next
  case (MOUSEBUTTONDOWN pos)
  then show ?thesis using assms
    by (auto simp: and_then_def split: sum.splits intro: viewport_inv_handle_mouse)
next
  case (MOUSEWHEEL y pos)
  then show ?thesis using assms
    by (cases pos) (auto simp: and_then_def Let_def split: sum.splits intro: viewport_inv_zoom_at)
next
  case (VIDEORESIZE w h)
  then show ?thesis using assms(2) viewport_inv_pan [OF assms(1)]
    by (auto simp: and_then_def Let_def split: sum.splits intro!: viewport_inv_clamp)
next
  case MOUSEBUTTONUP
  then show ?thesis using assms by auto
next
  case (MOUSEMOTION pos)
  then show ?thesis using assms
    by (auto simp: and_then_def split: sum.splits if_splits intro: viewport_inv_handle_mouse)
next
  case Other_event
  then show ?thesis using assms by auto
qed

lemma viewport_inv_init: "init rng w h cs d = Inr s \<Longrightarrow> viewport_inv s"
  by (auto simp: init_def and_then_def Let_def viewport_inv_def offsets_ok_def
      max_offset_x_def max_offset_y_def split: sum.splits)

lemma reachable_viewport_inv: "reachable sm \<Longrightarrow> viewport_inv (fst sm)"
proof (induction rule: reachable.induct)
  case (start rng w h cs d s)
  then show ?case by (simp add: viewport_inv_init)
next
  case (event sm rng e sm')
  obtain s m s' m' where sm: "sm = (s, m)" "sm' = (s', m')"
    by (cases sm; cases sm') blast
  show ?case using event viewport_inv_handle_event [of s rng m e s' m'] by (simp add: sm)
next
  case (generation s m)
  then show ?case by (simp add: viewport_inv_step)
qed

text \<open>
  C5. In every state the program reaches from its construction, by events (the four
  pan keys, the mouse wheel's \<open>zoom_at\<close>, a window resize and all others) and by
  generations, neither offset is negative and each is at most
  \<open>max 0 (total pixel extent - viewport pixel extent)\<close> of its axis.
\<close>

theorem offsets_within_bounds:
  assumes "reachable (s, m)"
  shows "0 \<le> offset_x s \<and> offset_x s \<le> max 0 (width s * cell_size s - screen_width s)
       \<and> 0 \<le> offset_y s \<and> offset_y s \<le> max 0 (height s * cell_size s - (screen_height s - 50))"
  using reachable_viewport_inv [OF assms]
  by (simp add: viewport_inv_def offsets_ok_def max_offset_x_def max_offset_y_def)

lemma reachable_resized_game: "reachable (resized_game, False)"
proof -
  let ?rng = "\<lambda>r c. even (r + c)"
  obtain s0 where s0: "init ?rng 3 2 8 (3 / 10) = Inr s0"
     "handle_event ?rng (s0, False) (VIDEORESIZE 10 60) = Inr (clamp_offsets (s0\<lparr>screen_width := 10, screen_height := 60\<rparr>), False)"
    by (simp add: init_def random_choice_def and_then_def set_mode_def Let_def)
  define s1 where "s1 = clamp_offsets (s0\<lparr>screen_width := 10, screen_height := 60\<rparr>)"
  have r0: "reachable (s0, False)" using s0(1) by (rule reachable.start)
  have r1: "reachable (s1, False)" using r0 s0(2) unfolding s1_def by (rule reachable.event)
  have "handle_event ?rng (s1, False) (KEYDOWN K_RIGHT) = Inr (resized_game, False)"
    using s0(1) unfolding s1_def resized_game_def
    by (auto simp: init_def random_choice_def and_then_def set_mode_def Let_def clamp_offsets_def upt_rec)
  with r1 show ?thesis by (rule reachable.event)
qed

theorem offsets_within_bounds_witness:
  "reachable (resized_game, False)
   \<and> 0 \<le> offset_x resized_game \<and> offset_x resized_game \<le> 14
   \<and> 0 \<le> offset_y resized_game \<and> offset_y resized_game \<le> 6"
  using offsets_within_bounds [OF reachable_resized_game] reachable_resized_game
  by (simp add: resized_game_def)

subsection \<open>Floating point\<close>

lemma round_half_even_ge: "of_int n \<le> x \<Longrightarrow> n \<le> round_half_even x"
proof -
  assume "of_int n \<le> x"
  then have "n \<le> \<lfloor>x\<rfloor>" by (simp add: le_floor_iff)
  then show ?thesis by (simp add: round_half_even_def Let_def)
qed

lemma round_half_even_le: "x \<le> of_int n \<Longrightarrow> round_half_even x \<le> n"
proof -
  assume a: "x \<le> of_int n"
  then have f: "\<lfloor>x\<rfloor> \<le> n" by (simp add: floor_le_iff) 
  show ?thesis
  proof (cases "\<lfloor>x\<rfloor> = n")
    case True
    then have "x = of_int n" using a by (metis of_int_floor_le order_antisym)
    then show ?thesis by (simp add: round_half_even_def Let_def)
  next
    case False
    then have "\<lfloor>x\<rfloor> + 1 \<le> n" using f by simp
    then show ?thesis by (simp add: round_half_even_def Let_def)
  qed
qed

lemma exponent_le:
  assumes "x \<noteq> 0"
  shows "2 powi exponent x \<le> \<bar>x\<bar>"
proof -
  obtain p q where pq: "quotient_of \<bar>x\<bar> = (p, q)" by (cases "quotient_of \<bar>x\<bar>")
  have q: "0 < q" using pq by (rule quotient_of_denom_pos)
  have x: "\<bar>x\<bar> = of_int p / of_int q" using pq by (rule quotient_of_div)
  have "0 < \<bar>x\<bar>" using assms by simp
  then have p: "0 < p" using q unfolding x by (simp add: zero_less_divide_iff)
  define e where "e = bitlen p - bitlen q"
  show ?thesis
  proof (cases "\<bar>x\<bar> < 2 powi e")
    case False
    then show ?thesis by (simp add: exponent_def pq e_def[symmetric] Let_def)
  next
    case True
    have bp: "1 \<le> bitlen p" and bq: "1 \<le> bitlen q"
      using p q by (simp_all add: bitlen_alt_def)
    have "(2::int) ^ nat (bitlen p - 1) \<le> p" using bitlen_bounds[OF p] by simp
    then have "(of_int ((2::int) ^ nat (bitlen p - 1)) :: rat) \<le> of_int p"
      by (simp only: of_int_le_iff)
    then have lo: "(2::rat) powi (bitlen p - 1) \<le> of_int p"
      using bp by (simp add: power_int_def)
    have "q < (2::int) ^ nat (bitlen q)" using bitlen_bounds[OF q] by simp
    then have "(of_int q :: rat) < of_int ((2::int) ^ nat (bitlen q))"
      by (simp only: of_int_less_iff)
    then have hi: "of_int q < (2::rat) powi bitlen q"
      using bq by (simp add: power_int_def)
    have "(2::rat) powi (e - 1) = 2 powi (bitlen p - 1) / 2 powi bitlen q"
      by (simp add: e_def power_int_diff)
    also have "\<dots> \<le> of_int p / 2 powi bitlen q"
      using lo by (simp add: divide_right_mono)
    also have "\<dots> \<le> of_int p / of_int q"
      using hi p q by (simp add: frac_le)
    finally have "(2::rat) powi (e - 1) \<le> \<bar>x\<bar>" unfolding x .
    then show ?thesis using True by (simp add: exponent_def pq e_def[symmetric] Let_def)
  qed
qed

lemma exponent_gt:
  assumes "x \<noteq> 0"
  shows "\<bar>x\<bar> < 2 powi (exponent x + 1)"
proof -
  obtain p q where pq: "quotient_of \<bar>x\<bar> = (p, q)" by (cases "quotient_of \<bar>x\<bar>")
  have q: "0 < q" using pq by (rule quotient_of_denom_pos)
  have x: "\<bar>x\<bar> = of_int p / of_int q" using pq by (rule quotient_of_div)
  have "0 < \<bar>x\<bar>" using assms by simp
  then have p: "0 < p" using q unfolding x by (simp add: zero_less_divide_iff)
  define e where "e = bitlen p - bitlen q"
  show ?thesis
  proof (cases "\<bar>x\<bar> < 2 powi e")
    case True
    then show ?thesis by (simp add: exponent_def pq e_def[symmetric] Let_def)
  next
    case False
    have bp: "1 \<le> bitlen p" and bq: "1 \<le> bitlen q"
      using p q by (simp_all add: bitlen_alt_def)
    have "p < (2::int) ^ nat (bitlen p)" using bitlen_bounds[OF p] by simp
    then have "(of_int p :: rat) < of_int ((2::int) ^ nat (bitlen p))"
      by (simp only: of_int_less_iff)
    then have hi: "of_int p < (2::rat) powi bitlen p"
      using bp by (simp add: power_int_def)
    have "(2::int) ^ nat (bitlen q - 1) \<le> q" using bitlen_bounds[OF q] by simp
    then have "(of_int ((2::int) ^ nat (bitlen q - 1)) :: rat) \<le> of_int q"
      by (simp only: of_int_le_iff)
    then have lo: "(2::rat) powi (bitlen q - 1) \<le> of_int q"
      using bq by (simp add: power_int_def)
    have "\<bar>x\<bar> = of_int p / of_int q" by (rule x)
    also have "\<dots> < 2 powi bitlen p / of_int q"
      using hi q by (simp add: divide_strict_right_mono)
    also have "\<dots> \<le> 2 powi bitlen p / 2 powi (bitlen q - 1)"
      using lo by (simp add: frac_le)
    also have "\<dots> = 2 powi (e + 1)"
      by (simp add: e_def power_int_diff power_int_add)
    finally show ?thesis using False by (simp add: exponent_def pq e_def[symmetric] Let_def)
  qed
qed


lemma round_half_even_of_int: "round_half_even (of_int n) = n"
  by (simp add: round_half_even_def)

lemma to_double_between:
  assumes k1: "\<bar>k1\<bar> \<le> 2 ^ 53" and k2: "\<bar>k2\<bar> \<le> 2 ^ 53"
    and lo: "of_int k1 \<le> x" and hi: "x \<le> of_int k2"
  shows "\<exists>y. to_double x = Inr y \<and> of_int k1 \<le> y \<and> y \<le> of_int k2"
proof (cases "x = 0")
  case True
  then show ?thesis using lo hi by (simp add: to_double_def)
next
  case False
  define ue where "ue = max (exponent x - 52) (- 1074)"
  define u :: rat where "u = 2 powi ue"
  define y where "y = of_int (round_half_even (x / u)) * u"
  have upos: "0 < u" by (simp add: u_def)
  have k1r: "- (2 ^ 53) \<le> (of_int k1 :: rat)" 
  proof -
    have "- (2 ^ 53) \<le> k1" using k1 by linarith
    then have "(of_int (- (2 ^ 53)) :: rat) \<le> of_int k1" by (simp only: of_int_le_iff)
    then show ?thesis by simp
  qed
  have k2r: "(of_int k2 :: rat) \<le> 2 ^ 53"
  proof -
    have "k2 \<le> 2 ^ 53" using k2 by linarith
    then have "(of_int k2 :: rat) \<le> of_int (2 ^ 53)" by (simp only: of_int_le_iff)
    then show ?thesis by simp
  qed
  have xb: "\<bar>x\<bar> \<le> 2 ^ 53" using k1r k2r lo hi by linarith
  have bounds: "of_int k1 \<le> y \<and> y \<le> of_int k2"
  proof (cases "ue \<le> 0")
    case True
    define N :: int where "N = 2 ^ nat (- ue)"
    have uN: "u = 1 / of_int N" using True
      by (simp add: u_def N_def power_int_def field_simps)
    have Npos: "0 < N" by (simp add: N_def)
    have xu: "x / u = x * of_int N" by (simp add: uN)
    have "of_int (k1 * N) \<le> x / u" using lo Npos by (simp add: xu)
    then have a: "k1 * N \<le> round_half_even (x / u)" by (rule round_half_even_ge)
    have "x / u \<le> of_int (k2 * N)" using hi Npos by (simp add: xu)
    then have b: "round_half_even (x / u) \<le> k2 * N" by (rule round_half_even_le)
    have "(of_int (k1 * N) :: rat) \<le> of_int (round_half_even (x / u))"
      using a by (simp only: of_int_le_iff)
    then have a': "of_int k1 \<le> y" using Npos by (simp add: y_def uN field_simps)
    have "(of_int (round_half_even (x / u)) :: rat) \<le> of_int (k2 * N)"
      using b by (simp only: of_int_le_iff)
    then have b': "y \<le> of_int k2" using Npos by (simp add: y_def uN field_simps)
    show ?thesis using a' b' by simp
  next
    case False
    then have e: "53 \<le> exponent x" by (simp add: ue_def)
    have "(2::rat) powi 53 \<le> 2 powi exponent x"
      using e by (intro power_int_increasing) simp_all
    also have "\<dots> \<le> \<bar>x\<bar>" using \<open>x \<noteq> 0\<close> by (rule exponent_le)
    finally have "2 ^ 53 \<le> \<bar>x\<bar>" by simp
    with xb have ax: "\<bar>x\<bar> = 2 ^ 53" by simp
    have "exponent x \<le> 53"
    proof (rule ccontr)
      assume "\<not> exponent x \<le> 53"
      then have "54 \<le> exponent x" by simp
      then have "(2::rat) powi 54 \<le> 2 powi exponent x"
        by (intro power_int_increasing) simp_all
      also have "\<dots> \<le> \<bar>x\<bar>" using \<open>x \<noteq> 0\<close> by (rule exponent_le)
      finally show False using ax by simp
    qed
    with e have "exponent x = 53" by simp
    then have u2: "u = 2" by (simp add: u_def ue_def)
    have "x = 2 ^ 53 \<or> x = - (2 ^ 53)" using ax by linarith
    then have "x / u = of_int (2 ^ 52) \<or> x / u = of_int (- (2 ^ 52))"
      by (auto simp: u2)
    then have "y = x" unfolding y_def
      by (auto simp: round_half_even_of_int simp del: of_int_numeral of_int_power of_int_minus) (auto simp: u2)
    then show ?thesis using lo hi by simp
  qed
  then have "\<bar>y\<bar> \<le> 2 ^ 53" using k1r k2r by linarith
  also have "(2::rat) ^ 53 < 2 ^ 1024" by simp
  finally have "\<not> 2 powi 1024 \<le> \<bar>y\<bar>" by simp
  then have "to_double x = Inr y"
    using \<open>x \<noteq> 0\<close>
    by (simp add: to_double_def Let_def y_def u_def ue_def)
  then show ?thesis using bounds by blast
qed


lemma to_double_exact:
  assumes x: "x = of_int k / 2 ^ n" and k: "\<bar>k\<bar> < 2 ^ 53" and n: "n \<le> 1074"
  shows "to_double x = Inr x"
proof (cases "x = 0")
  case True
  then show ?thesis by (simp add: to_double_def)
next
  case False
  define ue where "ue = max (exponent x - 52) (- 1074)"
  define u :: rat where "u = 2 powi ue"
  have kr: "\<bar>of_int k :: rat\<bar> < 2 ^ 53"
  proof -
    have "(of_int \<bar>k\<bar> :: rat) < of_int (2 ^ 53)" using k by (simp only: of_int_less_iff)
    then show ?thesis by simp
  qed
  have "\<bar>x\<bar> = \<bar>of_int k\<bar> / 2 ^ n" by (simp add: x abs_divide)
  also have "\<dots> < 2 ^ 53 / 2 ^ n" using kr by (simp add: divide_strict_right_mono)
  also have "\<dots> = 2 powi (53 - int n)" by (simp add: power_int_diff)
  finally have xb: "\<bar>x\<bar> < 2 powi (53 - int n)" .
  have "(2::rat) powi exponent x \<le> \<bar>x\<bar>" using False by (rule exponent_le)
  with xb have lt: "(2::rat) powi exponent x < 2 powi (53 - int n)" by simp
  have e: "exponent x < 53 - int n"
  proof (rule ccontr)
    assume "\<not> exponent x < 53 - int n"
    then have "(2::rat) powi (53 - int n) \<le> 2 powi exponent x"
      by (intro power_int_increasing) simp_all
    with lt show False by simp
  qed
  have ue: "ue \<le> - int n" using e n by (simp add: ue_def)
  define j where "j = nat (- int n - ue)"
  have u: "u = 1 / (2 ^ n * 2 ^ j)"
  proof -
    have "ue = - int (n + j)" using ue by (simp add: j_def)
    then have "u = 2 powi (- int (n + j))" by (simp add: u_def)
    also have "\<dots> = 1 / 2 ^ (n + j)"
      by (simp only: power_int_minus power_int_of_nat inverse_eq_divide)
    finally show ?thesis by (simp add: power_add)
  qed
  have xu: "x / u = of_int (k * 2 ^ j)" by (simp add: x u)
  have "of_int (round_half_even (x / u)) * u = x"
    unfolding xu round_half_even_of_int by (simp add: x u)
  moreover have "\<not> 2 powi 1024 \<le> \<bar>x\<bar>"
  proof -
    have "(2::rat) powi (53 - int n) \<le> 2 powi 1024" by (intro power_int_increasing) simp_all
    with xb show ?thesis by simp
  qed
  ultimately show ?thesis using False
    by (simp add: to_double_def Let_def u_def ue_def)
qed

lemma float_of_int_exact: "\<bar>n\<bar> \<le> 2 ^ 53 \<Longrightarrow> float_of_int n = Inr (of_int n)"
  using to_double_between [of n n "of_int n"] by (auto simp: float_of_int_def)

lemma py_int_between:
  assumes "of_int k1 \<le> z" "z \<le> of_int k2"
  shows "k1 \<le> py_int z \<and> py_int z \<le> k2"
proof (cases "0 \<le> z")
  case True
  have "\<lfloor>z\<rfloor> \<le> k2" using assms(2) by (simp add: floor_le_iff)
  moreover have "k1 \<le> \<lfloor>z\<rfloor>" using assms(1) by (simp add: le_floor_iff)
  ultimately show ?thesis using True by (simp add: py_int_def)
next
  case False
  have "\<lceil>z\<rceil> \<le> k2" using assms(2) by (simp add: ceiling_le_iff)
  moreover have "k1 \<le> \<lceil>z\<rceil>" using assms(1) by (simp add: le_ceiling_iff)
  ultimately show ?thesis using False by (simp add: py_int_def)
qed

lemma abs_mult_bound:
  fixes q n :: int
  assumes "\<bar>q\<bar> \<le> A" "0 \<le> n" "n \<le> B"
  shows "\<bar>q * n\<bar> \<le> A * B"
proof -
  have "\<bar>q * n\<bar> = \<bar>q\<bar> * n" using assms(2) by (simp add: abs_mult)
  also have "\<dots> \<le> A * B" using assms by (intro mult_mono) auto
  finally show ?thesis .
qed

lemma div_abs_le:
  fixes a old B :: int
  assumes "1 \<le> old" "\<bar>a\<bar> \<le> B"
  shows "\<bar>a div old\<bar> \<le> B"
proof -
  define C where "C = - B"
  have B: "0 \<le> B" using assms(2) by linarith
  have "B * 1 \<le> B * old" using B assms(1) by (intro mult_left_mono) auto
  then have lo: "C * old \<le> a" and hi: "a \<le> B * old" using assms(2) by (auto simp: C_def)
  have "(C * old) div old \<le> a div old" using lo assms(1) by (intro zdiv_mono1) auto
  moreover have "a div old \<le> (B * old) div old" using hi assms(1) by (intro zdiv_mono1) auto
  moreover have "(C * old) div old = C" "(B * old) div old = B"
    using assms(1) by simp_all
  ultimately show ?thesis by (simp add: C_def)
qed

lemma zoom_axis:
  fixes f off old new :: int
  assumes old: "1 \<le> old" and new: "1 \<le> new" "new \<le> 2 ^ 16"
    and f: "\<bar>f\<bar> \<le> 2 ^ 31" and off: "\<bar>off\<bar> \<le> 2 ^ 31"
  shows "\<exists>g m z. true_div (f + off) old = Inr g \<and> float_mul g new = Inr m
           \<and> float_sub m f = Inr z
           \<and> (f + off) div old * new \<le> f + py_int z
           \<and> f + py_int z \<le> ((f + off) div old + 1) * new"
proof -
  define a where "a = f + off"
  define q where "q = a div old"
  define x :: rat where "x = of_int a / of_int old"
  have oldr: "(0::rat) < of_int old" using old by simp
  have newr: "(0::rat) < of_int new" using new by simp
  have ab: "\<bar>a\<bar> \<le> 2 ^ 32" using f off by (simp add: a_def)
  have qf: "q = \<lfloor>x\<rfloor>" by (simp add: q_def x_def floor_divide_of_int_eq)
  have qb: "\<bar>q\<bar> \<le> 2 ^ 32"
    unfolding q_def using old ab by (rule div_abs_le)
  have xq: "of_int q \<le> x" "x \<le> of_int (q + 1)"
    unfolding qf by (simp_all add: of_int_floor_le le_floor_add) linarith
  have q1b: "\<bar>q + 1\<bar> \<le> 2 ^ 53" and q0b: "\<bar>q\<bar> \<le> 2 ^ 53" using qb by simp_all
  obtain g where g: "to_double x = Inr g" "of_int q \<le> g" "g \<le> of_int (q + 1)"
    using to_double_between [OF q0b q1b xq] by blast
  have td: "true_div (f + off) old = Inr g"
    using old g(1) by (simp add: true_div_def x_def a_def)
  have nb: "\<bar>new\<bar> \<le> 2 ^ 53" using new by simp
  have fb: "\<bar>f\<bar> \<le> 2 ^ 53" using f by simp
  have m1: "\<bar>q * new\<bar> \<le> 2 ^ 32 * 2 ^ 16" using qb new by (intro abs_mult_bound) auto
  have m2: "\<bar>(q + 1) * new\<bar> \<le> (2 ^ 32 + 1) * 2 ^ 16"
    using qb new by (intro abs_mult_bound) auto
  have mlo: "of_int (q * new) \<le> g * of_int new"
    using g(2) newr by simp
  have mhi: "g * of_int new \<le> of_int ((q + 1) * new)"
    using g(3) newr by simp
  obtain m where m: "to_double (g * of_int new) = Inr m" "of_int (q * new) \<le> m"
      "m \<le> of_int ((q + 1) * new)"
    using to_double_between [OF _ _ mlo mhi] m1 m2 by auto
  have fm: "float_mul g new = Inr m"
    using m(1) by (simp add: float_mul_def float_of_int_exact [OF nb] and_then_def)
  have z1: "\<bar>q * new - f\<bar> \<le> 2 ^ 53" using m1 f by simp
  have z2: "\<bar>(q + 1) * new - f\<bar> \<le> 2 ^ 53" using m2 f by simp
  have zlo: "of_int (q * new - f) \<le> m - of_int f" using m(2) by simp
  have zhi: "m - of_int f \<le> of_int ((q + 1) * new - f)" using m(3) by simp
  obtain z where z: "to_double (m - of_int f) = Inr z" "of_int (q * new - f) \<le> z"
      "z \<le> of_int ((q + 1) * new - f)"
    using to_double_between [OF z1 z2 zlo zhi] by blast
  have fs: "float_sub m f = Inr z"
    using z(1) by (simp add: float_sub_def float_of_int_exact [OF fb] and_then_def)
  have "q * new - f \<le> py_int z \<and> py_int z \<le> (q + 1) * new - f"
    using z(2,3) by (rule py_int_between)
  then show ?thesis using td fm fs unfolding q_def a_def by auto
qed

lemma div_between:
  fixes q n X :: int
  assumes "1 \<le> n" "q * n \<le> X" "X \<le> (q + 1) * n"
  shows "q \<le> X div n \<and> X div n \<le> q + 1"
proof -
  have "(q * n) div n \<le> X div n" using assms by (intro zdiv_mono1) auto
  moreover have "X div n \<le> ((q + 1) * n) div n" using assms by (intro zdiv_mono1) auto
  ultimately show ?thesis using assms(1) by simp
qed

subsection \<open>zoom_at\<close>

lemma new_offset_eq:
  "float_mul g new = Inr m \<Longrightarrow> float_sub m f = Inr z \<Longrightarrow> new_offset g new f = Inr (py_int z)"
  by (simp add: new_offset_def and_then_def)

lemma zoom_at_eq:
  assumes "new \<noteq> cell_size s"
    and "true_div (fx + offset_x s) (cell_size s) = Inr gx"
    and "true_div (fy + offset_y s) (cell_size s) = Inr gy"
    and "new_offset gx new fx = Inr tx" and "new_offset gy new fy = Inr ty"
  shows "zoom_at s fx fy new =
           Inr (clamp_offsets (s\<lparr>cell_size := new, offset_x := tx, offset_y := ty\<rparr>))"
  using assms by (simp add: zoom_at_def and_then_def Let_def)

text \<open>The float operations at the inputs of the two examples below.\<close>

lemma py_int_15_4: "py_int (15 / 4) = 3"
  by (simp add: py_int_def floor_eq_iff)

lemma true_div_3_4: "true_div 3 4 = Inr (3 / 4)"
  using to_double_exact [of "3 / 4" 3 2] by (simp add: true_div_def)

lemma new_offset_5: "new_offset (3 / 4) 5 0 = Inr 3"
proof -
  have "to_double (15 / 4) = Inr (15 / 4)" using to_double_exact [of "15 / 4" 15 2] by simp
  then show ?thesis
    by (simp add: new_offset_def float_mul_def float_sub_def float_of_int_exact and_then_def
        py_int_15_4)
qed

lemma new_offset_40: "new_offset (3 / 4) 40 0 = Inr 30"
proof -
  have "to_double 30 = Inr 30" using to_double_exact [of 30 30 0] by simp
  then show ?thesis
    by (simp add: new_offset_def float_mul_def float_sub_def float_of_int_exact and_then_def
        py_int_def)
qed

lemma true_div_14_2: "true_div 14 2 = Inr 7"
  using to_double_exact [of 7 7 0] by (simp add: true_div_def)

lemma new_offset_7: "new_offset 7 1 4 = Inr 3"
proof -
  have "to_double 7 = Inr 7" "to_double 3 = Inr 3"
    using to_double_exact [of 7 7 0] to_double_exact [of 3 3 0] by simp_all
  then show ?thesis
    by (simp add: new_offset_def float_mul_def float_sub_def float_of_int_exact and_then_def
        py_int_def)
qed

text \<open>
  C2 (as the code has it). For a new cell size other than the current one, \<open>zoom_at\<close>
  computes the grid coordinate of the focus as the float \<open>(focus + offset) / old\<close>, sets
  \<open>cell_size\<close> to the new cell size as it is passed, without clamping it to
  \<open>[min_cell_size, max_cell_size]\<close>, sets each offset to
  \<open>int (grid coordinate * new cell size - focus)\<close>, which truncates toward zero, and
  then applies \<open>clamp_offsets\<close>. With cell sizes from 1 to \<open>2 ^ 16\<close> and focus and
  offsets of magnitude at most \<open>2 ^ 31\<close>, no float operation raises and the call returns.
\<close>

theorem zoom_at_algorithm:
  assumes "new \<noteq> cell_size s" and "1 \<le> cell_size s" and "1 \<le> new" and "new \<le> 2 ^ 16"
    and "\<bar>fx\<bar> \<le> 2 ^ 31" and "\<bar>fy\<bar> \<le> 2 ^ 31"
    and "\<bar>offset_x s\<bar> \<le> 2 ^ 31" and "\<bar>offset_y s\<bar> \<le> 2 ^ 31"
  shows "\<exists>gx gy mx my zx zy.
           true_div (fx + offset_x s) (cell_size s) = Inr gx
         \<and> true_div (fy + offset_y s) (cell_size s) = Inr gy
         \<and> float_mul gx new = Inr mx \<and> float_sub mx fx = Inr zx
         \<and> float_mul gy new = Inr my \<and> float_sub my fy = Inr zy
         \<and> zoom_at s fx fy new =
             Inr (clamp_offsets (s\<lparr>cell_size := new, offset_x := py_int zx,
                                   offset_y := py_int zy\<rparr>))"
proof -
  obtain gx mx zx where x: "true_div (fx + offset_x s) (cell_size s) = Inr gx"
      "float_mul gx new = Inr mx" "float_sub mx fx = Inr zx"
    using zoom_axis [OF assms(2,3,4,5,7)] by blast
  obtain gy my zy where y: "true_div (fy + offset_y s) (cell_size s) = Inr gy"
      "float_mul gy new = Inr my" "float_sub my fy = Inr zy"
    using zoom_axis [OF assms(2,3,4,6,8)] by blast
  have "zoom_at s fx fy new =
          Inr (clamp_offsets (s\<lparr>cell_size := new, offset_x := py_int zx, offset_y := py_int zy\<rparr>))"
    using assms(1) x(1) y(1) new_offset_eq [OF x(2,3)] new_offset_eq [OF y(2,3)]
    by (rule zoom_at_eq)
  then show ?thesis using x y by blast
qed

theorem zoom_at_algorithm_witness:
  "5 \<noteq> cell_size round_game \<and> 1 \<le> cell_size round_game
   \<and> (\<exists>gx gy mx my zx zy.
         true_div (0 + offset_x round_game) (cell_size round_game) = Inr gx
       \<and> true_div (0 + offset_y round_game) (cell_size round_game) = Inr gy
       \<and> float_mul gx 5 = Inr mx \<and> float_sub mx 0 = Inr zx
       \<and> float_mul gy 5 = Inr my \<and> float_sub my 0 = Inr zy
       \<and> zoom_at round_game 0 0 5 =
           Inr (clamp_offsets (round_game\<lparr>cell_size := 5, offset_x := py_int zx,
                                          offset_y := py_int zy\<rparr>)))"
proof -
  have h: "5 \<noteq> cell_size round_game" "1 \<le> cell_size round_game" "(1::int) \<le> 5"
    "(5::int) \<le> 2 ^ 16" "\<bar>0::int\<bar> \<le> 2 ^ 31"
    "\<bar>offset_x round_game\<bar> \<le> 2 ^ 31" "\<bar>offset_y round_game\<bar> \<le> 2 ^ 31"
    by (simp_all add: round_game_def)
  show ?thesis
    using zoom_at_algorithm [OF h(1,2,3,4,5,5,6,7)] h(1,2) by simp
qed

text \<open>
  With 4 pixels per cell and an offset of 3, the focus \<open>0\<close> has the grid coordinate
  0.75; at 5 pixels per cell the code sets the offset \<open>int 3.75 = 3\<close>, the specification's
  \<open>round 3.75 = 4\<close>. A new cell size of 40 is set as it is, above \<open>max_cell_size = 32\<close>.
\<close>

theorem zoom_at_truncates_and_does_not_clamp:
  "zoom_at round_game 0 0 5 = Inr (round_game\<lparr>cell_size := 5\<rparr>)
   \<and> zoom_at_spec round_game 0 0 5 = round_game\<lparr>cell_size := 5, offset_x := 4, offset_y := 4\<rparr>
   \<and> zoom_at round_game 0 0 40 =
       Inr (round_game\<lparr>cell_size := 40, offset_x := 30, offset_y := 30\<rparr>)
   \<and> cell_size (zoom_at_spec round_game 0 0 40) = 32"
proof -
  have a: "zoom_at round_game 0 0 5 = Inr (round_game\<lparr>cell_size := 5\<rparr>)"
    using true_div_3_4 new_offset_5
    by (simp add: zoom_at_def and_then_def Let_def round_game_def clamp_offsets_def)
  have b: "zoom_at round_game 0 0 40 =
       Inr (round_game\<lparr>cell_size := 40, offset_x := 30, offset_y := 30\<rparr>)"
    using true_div_3_4 new_offset_40
    by (simp add: zoom_at_def and_then_def Let_def round_game_def clamp_offsets_def)
  have r: "round (15 / 4 :: rat) = 4" by (simp add: round_def floor_eq_iff)
  have c: "zoom_at_spec round_game 0 0 5 =
       round_game\<lparr>cell_size := 5, offset_x := 4, offset_y := 4\<rparr>"
    using r by (simp add: zoom_at_spec_def Let_def round_game_def clamp_offsets_def)
  have d: "cell_size (zoom_at_spec round_game 0 0 40) = 32"
    by (simp add: zoom_at_spec_def Let_def round_game_def clamp_offsets_def)
  show ?thesis using a b c d by simp
qed

text \<open>
  C4 (as the code has it). With cell sizes from 1 to \<open>2 ^ 16\<close> and focus and offsets of
  magnitude at most \<open>2 ^ 31\<close>, \<open>zoom_at\<close> returns, and on each axis on which
  \<open>clamp_offsets\<close> leaves the recomputed offset as it is, the grid coordinate of the
  focus pixel after the zoom differs from the one before by at most 1. Where
  \<open>clamp_offsets\<close> moves the offset, nothing is promised.
\<close>

theorem zoom_at_focus:
  assumes "1 \<le> cell_size s" and "1 \<le> new" and "new \<le> 2 ^ 16"
    and "\<bar>fx\<bar> \<le> 2 ^ 31" and "\<bar>fy\<bar> \<le> 2 ^ 31"
    and "\<bar>offset_x s\<bar> \<le> 2 ^ 31" and "\<bar>offset_y s\<bar> \<le> 2 ^ 31"
  shows "\<exists>s' c r c' r'.
           zoom_at s fx fy new = Inr s'
         \<and> screen_to_grid s fx fy = Inr (c, r) \<and> screen_to_grid s' fx fy = Inr (c', r')
         \<and> (if new = cell_size s then c' = c \<and> r' = r
            else \<exists>gx gy tx ty.
                   true_div (fx + offset_x s) (cell_size s) = Inr gx
                 \<and> true_div (fy + offset_y s) (cell_size s) = Inr gy
                 \<and> new_offset gx new fx = Inr tx \<and> new_offset gy new fy = Inr ty
                 \<and> (offset_x s' = tx \<longrightarrow> \<bar>c' - c\<bar> \<le> 1)
                 \<and> (offset_y s' = ty \<longrightarrow> \<bar>r' - r\<bar> \<le> 1))"
proof (cases "new = cell_size s")
  case True
  then show ?thesis using assms(1) by (simp add: zoom_at_def screen_to_grid_def)
next
  case False
  obtain gx mx zx where x: "true_div (fx + offset_x s) (cell_size s) = Inr gx"
      "float_mul gx new = Inr mx" "float_sub mx fx = Inr zx"
      "(fx + offset_x s) div cell_size s * new \<le> fx + py_int zx"
      "fx + py_int zx \<le> ((fx + offset_x s) div cell_size s + 1) * new"
    using zoom_axis [OF assms(1,2,3,4,6)] by blast
  obtain gy my zy where y: "true_div (fy + offset_y s) (cell_size s) = Inr gy"
      "float_mul gy new = Inr my" "float_sub my fy = Inr zy"
      "(fy + offset_y s) div cell_size s * new \<le> fy + py_int zy"
      "fy + py_int zy \<le> ((fy + offset_y s) div cell_size s + 1) * new"
    using zoom_axis [OF assms(1,2,3,5,7)] by blast
  define s' where
    "s' = clamp_offsets (s\<lparr>cell_size := new, offset_x := py_int zx, offset_y := py_int zy\<rparr>)"
  have nx: "new_offset gx new fx = Inr (py_int zx)" using x(2,3) by (rule new_offset_eq)
  have ny: "new_offset gy new fy = Inr (py_int zy)" using y(2,3) by (rule new_offset_eq)
  have z: "zoom_at s fx fy new = Inr s'"
    unfolding s'_def using False x(1) y(1) nx ny by (rule zoom_at_eq)
  have cs: "cell_size s' = new" by (simp add: s'_def clamp_offsets_def Let_def)
  have before: "screen_to_grid s fx fy =
      Inr ((fx + offset_x s) div cell_size s, (fy + offset_y s) div cell_size s)"
    using assms(1) by (simp add: screen_to_grid_def)
  have after: "screen_to_grid s' fx fy =
      Inr ((fx + offset_x s') div new, (fy + offset_y s') div new)"
    using assms(2) by (simp add: screen_to_grid_def cs)
  have cx: "\<bar>(fx + offset_x s') div new - (fx + offset_x s) div cell_size s\<bar> \<le> 1"
    if "offset_x s' = py_int zx"
    using div_between [OF assms(2) x(4,5)] that by simp
  have cy: "\<bar>(fy + offset_y s') div new - (fy + offset_y s) div cell_size s\<bar> \<le> 1"
    if "offset_y s' = py_int zy"
    using div_between [OF assms(2) y(4,5)] that by simp
  show ?thesis
    using False z before after x(1) y(1) nx ny cx cy by auto
qed

theorem zoom_at_focus_witness:
  "1 \<le> cell_size round_game
   \<and> (\<exists>s' c r c' r'.
         zoom_at round_game 0 0 5 = Inr s'
       \<and> screen_to_grid round_game 0 0 = Inr (c, r) \<and> screen_to_grid s' 0 0 = Inr (c', r')
       \<and> (\<exists>gx gy tx ty.
              true_div (0 + offset_x round_game) (cell_size round_game) = Inr gx
            \<and> true_div (0 + offset_y round_game) (cell_size round_game) = Inr gy
            \<and> new_offset gx 5 0 = Inr tx \<and> new_offset gy 5 0 = Inr ty
            \<and> (offset_x s' = tx \<longrightarrow> \<bar>c' - c\<bar> \<le> 1)
            \<and> (offset_y s' = ty \<longrightarrow> \<bar>r' - r\<bar> \<le> 1)))"
proof -
  have h: "1 \<le> cell_size round_game" "(1::int) \<le> 5"
    "(5::int) \<le> 2 ^ 16" "\<bar>0::int\<bar> \<le> 2 ^ 31"
    "\<bar>offset_x round_game\<bar> \<le> 2 ^ 31" "\<bar>offset_y round_game\<bar> \<le> 2 ^ 31"
    by (simp_all add: round_game_def)
  have n: "5 \<noteq> cell_size round_game" by (simp add: round_game_def)
  show ?thesis
    using zoom_at_focus [OF h(1,2,3,4,4,5,6)] h(1) n by simp
qed

text \<open>
  Zooming out at the pixel \<open>(4, 4)\<close> of \<open>zoom_game\<close>: the pixel shows the cell
  \<open>(7, 7)\<close> before; the recomputed offsets are \<open>(3, 3)\<close>, but the whole grid now fits
  into the window, \<open>clamp_offsets\<close> sets them to 0, and the pixel shows the cell
  \<open>(4, 4)\<close>.
\<close>

theorem zoom_at_focus_moves_when_clamped:
  "zoom_at zoom_game 4 4 1 = Inr zoomed_out
   \<and> screen_to_grid zoom_game 4 4 = Inr (7, 7)
   \<and> screen_to_grid zoomed_out 4 4 = Inr (4, 4)"
proof -
  have "zoom_at zoom_game 4 4 1 = Inr zoomed_out"
    using true_div_14_2 new_offset_7
    by (simp add: zoom_at_def and_then_def Let_def zoomed_out_def zoom_game_def clamp_offsets_def)
  then show ?thesis
    by (simp add: screen_to_grid_def zoomed_out_def zoom_game_def)
qed

end
